theory Spec2Isabelle
  imports Main "HOL-Library.Word" "HOL-Library.Multiset" "HOL-Library.Log_Nat"
begin

unbundle bit_operations_syntax

section \<open>Data model (cache.c, lines 11-38)\<close>

text \<open>
  A line of the cache: the LRU counter \<open>time\<close> (unsigned int), the \<open>valid\<close> flag
  (unsigned char), the \<open>tag\<close> (unsigned int, 32 bits) and the 64 bytes of the block.
  The set holds the array of lines, the base holds the \<open>initialized\<close> flag and the one
  set of this fully associative cache. A pointer to a line is modelled as the index of
  the line in the array. The array is the part of the fast memory that follows the base
  and the set; it has \<open>numOfLines\<close> elements. An address (unsigned long) has 64 bits, as
  the mask constant of \<open>address_decomposer\<close> has.

  The number of lines is computed from \<open>c_info.F_size\<close> (lines 160 and 198); \<open>c_info\<close>
  is declared in cache.h, which is not part of the sources, so \<open>numOfLines\<close> is a
  parameter of \<open>init\<close> and \<open>cache_get\<close>.
\<close>

record cache_line =
  time :: "32 word"
  valid :: "8 word"
  tag :: "32 word"
  cacheBlock :: "8 word list"

record cache_set =
  cacheLineArray :: "cache_line list"

record cache_base =
  initialized :: "8 word"
  cacheSetArray :: cache_set

text \<open>
  The only undefined behaviour the model keeps as an error: \<open>findEvict\<close> dereferences
  \<open>evictedLine\<close>, which no iteration of its first loop may have assigned.
\<close>

datatype error = UninitialisedEvictedLine

text \<open>
  The backing-memory reader \<open>memget\<close> is declared in cache.h, which is not part of the
  sources; it is a parameter of the model. It receives the address, the present content
  of the destination buffer and the length, and gives back the success flag and the
  content of the buffer after the call (on failure: whatever it left there).
\<close>

type_synonym memget_fn = "64 word \<Rightarrow> 8 word list \<Rightarrow> nat \<Rightarrow> bool \<times> 8 word list"

text \<open>
  What one call of \<open>cache_get\<close> produces: the returned int, the value stored through the
  pointer \<open>value\<close> (\<open>None\<close> when nothing was stored), the fast memory after the call and the
  addresses handed to \<open>memget\<close>, in call order.
\<close>

record outcome =
  ret :: int
  value_out :: "64 word option"
  cache :: cache_base
  reads :: "64 word list"

section \<open>Address decomposition (lines 47-60)\<close>

text \<open>
  \<open>offsetBit\<close> is \<open>floor(log2(sizeOfBlock))\<close>; \<open>floorlog 2 k\<close> is the number of binary
  digits of \<open>k\<close>, one more than that.
\<close>

definition sizeOfBlock :: "32 word" where
  "sizeOfBlock = 64"

definition offsetBit :: nat where
  "offsetBit = floorlog 2 (unat sizeOfBlock) - 1"

definition address_decomposer :: "64 word \<Rightarrow> 64 word \<times> 64 word" where
  "address_decomposer address =
     (let offsetMask = NOT (push_bit offsetBit (0xffffffffffffffff :: 64 word))
      in (address AND offsetMask, drop_bit offsetBit address))"

section \<open>Word assembly (lines 70-94)\<close>

definition cache_get_byElem ::
  "8 word list \<Rightarrow> 8 word list \<Rightarrow> 32 word \<Rightarrow> 32 word \<Rightarrow> 8 word list" where
  "cache_get_byElem valueTemp block numOfElem startLocation =
     fold (\<lambda>i vt. vt[i + unat startLocation := block ! i]) [0..<unat numOfElem] valueTemp"

definition reverse_endian :: "8 word list \<Rightarrow> 64 word" where
  "reverse_endian valueTemp =
     fold (\<lambda>i v. push_bit 8 v OR ucast (valueTemp ! (8 - i - 1))) [0..<8] 0"

section \<open>LRU bookkeeping (lines 105-149)\<close>

text \<open>
  The loops of the source count with an \<open>int i\<close> that is compared with the unsigned
  \<open>numOfLines\<close>; the model runs them over the indices \<open>0, \<dots>, numOfLines - 1\<close>.

  The body shared by the ageing loops of \<open>findEvict\<close> and \<open>setLRU\<close>: line \<open>i\<close> gets one
  tick older when its time is below the time of the line \<open>l\<close> points to, read from the
  array as it is at that iteration.
\<close>

definition age_step :: "nat \<Rightarrow> nat \<Rightarrow> cache_line list \<Rightarrow> cache_line list" where
  "age_step l i ls =
     (if time (ls ! i) < time (ls ! l) then ls[i := (ls ! i)\<lparr>time := time (ls ! i) + 1\<rparr>] else ls)"

text \<open>
  The first loop of \<open>findEvict\<close> (lines 110-114): the last index whose time is
  \<open>numOfLines - 1\<close>; \<open>None\<close> stands for the pointer that no iteration assigned.
\<close>

definition evicted_line :: "cache_set \<Rightarrow> 32 word \<Rightarrow> nat option" where
  "evicted_line st numOfLines =
     fold (\<lambda>i ev. if time (cacheLineArray st ! i) = numOfLines - 1 then Some i else ev)
       [0..<unat numOfLines] None"

definition findEvict :: "cache_set \<Rightarrow> 64 word \<Rightarrow> 32 word \<Rightarrow> error + (nat \<times> cache_set)" where
  "findEvict st tg numOfLines =
     (case evicted_line st numOfLines of
        None \<Rightarrow> Inl UninitialisedEvictedLine
      | Some e \<Rightarrow>
          let ls = fold (age_step e) [0..<unat numOfLines] (cacheLineArray st);
              ls' = ls[e := (ls ! e)\<lparr>time := 0, valid := 1, tag := ucast tg\<rparr>]
          in Inr (e, st\<lparr>cacheLineArray := ls'\<rparr>))"

definition setLRU :: "cache_set \<Rightarrow> nat \<Rightarrow> 32 word \<Rightarrow> cache_set" where
  "setLRU st line numOfLines =
     (let ls = fold (age_step line) [0..<unat numOfLines] (cacheLineArray st)
      in st\<lparr>cacheLineArray := ls[line := (ls ! line)\<lparr>time := 0\<rparr>]\<rparr>)"

section \<open>Initialisation (lines 157-185)\<close>

definition init :: "32 word \<Rightarrow> cache_base \<Rightarrow> cache_base" where
  "init numOfLines F_memory =
     (let ls = fold (\<lambda>j ls. ls[j := (ls ! j)\<lparr>time := of_nat j, valid := 0, tag := 0\<rparr>])
                 [0..<unat numOfLines] (cacheLineArray (cacheSetArray F_memory))
      in F_memory\<lparr>initialized := 1, cacheSetArray := \<lparr>cacheLineArray = ls\<rparr>\<rparr>)"

section \<open>The lookup (lines 195-372)\<close>

text \<open>
  The scan that \<open>cache_get\<close> runs three times (lines 231-245, 286-303, 306-323): the
  first index below \<open>numOfLines\<close> whose line is valid and whose tag, widened to
  unsigned long, equals the wanted tag.
\<close>

definition hit_line :: "cache_set \<Rightarrow> 64 word \<Rightarrow> 32 word \<Rightarrow> nat option" where
  "hit_line st tg numOfLines =
     find (\<lambda>i. valid (cacheLineArray st ! i) \<noteq> 0 \<and> ucast (tag (cacheLineArray st ! i)) = tg)
       [0..<unat numOfLines]"

text \<open>
  The scan with what follows a hit: \<open>setLRU\<close> on the line found and the copy of
  \<open>numOfElem\<close> bytes of its block, from \<open>cacheBlock + skip\<close> on, into \<open>valueTemp\<close> at
  \<open>startLocation\<close>. The flag tells whether a line was hit.
\<close>

definition scan_line ::
  "cache_set \<Rightarrow> 64 word \<Rightarrow> 32 word \<Rightarrow> 8 word list \<Rightarrow> nat \<Rightarrow> 32 word \<Rightarrow> 32 word \<Rightarrow>
   bool \<times> cache_set \<times> 8 word list" where
  "scan_line st tg numOfLines valueTemp skip numOfElem startLocation =
     (case hit_line st tg numOfLines of
        Some i \<Rightarrow>
          let st1 = setLRU st i numOfLines
          in (True, st1,
              cache_get_byElem valueTemp (drop skip (cacheBlock (cacheLineArray st1 ! i)))
                numOfElem startLocation)
      | None \<Rightarrow> (False, st, valueTemp))"

text \<open>The call \<open>memget(a, line->cacheBlock, 64)\<close> on line \<open>e\<close>: flag and set after it.\<close>

definition fill_line :: "memget_fn \<Rightarrow> 64 word \<Rightarrow> cache_set \<Rightarrow> nat \<Rightarrow> bool \<times> cache_set" where
  "fill_line memget a st e =
     (let ls = cacheLineArray st;
          (ok, blk) = memget a (cacheBlock (ls ! e)) 64
      in (ok, st\<lparr>cacheLineArray := ls[e := (ls ! e)\<lparr>cacheBlock := blk\<rparr>]\<rparr>))"

text \<open>
  What follows a miss (lines 250-259, 332-340, 353-361): \<open>findEvict\<close>, then \<open>memget\<close>
  into the block of the evicted line and, when it succeeds, the copy into \<open>valueTemp\<close>.
  The flag is the result of \<open>memget\<close>.
\<close>

definition fetch_line ::
  "memget_fn \<Rightarrow> cache_set \<Rightarrow> 64 word \<Rightarrow> 32 word \<Rightarrow> 64 word \<Rightarrow> 8 word list \<Rightarrow> nat \<Rightarrow>
   32 word \<Rightarrow> 32 word \<Rightarrow> error + (bool \<times> cache_set \<times> 8 word list)" where
  "fetch_line memget st tg numOfLines blockAddress valueTemp skip numOfElem startLocation =
     (case findEvict st tg numOfLines of
        Inl err \<Rightarrow> Inl err
      | Inr (evictedLine, st1) \<Rightarrow>
          let (ok, st2) = fill_line memget blockAddress st1 evictedLine
          in Inr (ok, st2,
                  if ok
                  then cache_get_byElem valueTemp
                         (drop skip (cacheBlock (cacheLineArray st2 ! evictedLine)))
                         numOfElem startLocation
                  else valueTemp))"

text \<open>The branch \<open>offset + 8 <= sizeOfBlock\<close> (lines 226-266).\<close>

definition cache_get_within ::
  "memget_fn \<Rightarrow> 32 word \<Rightarrow> cache_base \<Rightarrow> 64 word \<Rightarrow> 64 word \<Rightarrow> 64 word \<Rightarrow> error + outcome" where
  "cache_get_within memget numOfLines cacheBase address offset tg =
     (let st = cacheSetArray cacheBase; valueTemp = replicate 8 0;
          (isHit, st1, vt1) = scan_line st tg numOfLines valueTemp (unat offset) 8 0
      in if isHit then
           Inr \<lparr>ret = 1, value_out = Some (reverse_endian vt1),
                cache = cacheBase\<lparr>cacheSetArray := st1\<rparr>, reads = []\<rparr>
         else
           (case fetch_line memget st1 tg numOfLines (address - offset) vt1 (unat offset) 8 0 of
              Inl err \<Rightarrow> Inl err
            | Inr (ok, st2, vt2) \<Rightarrow>
                if ok then
                  Inr \<lparr>ret = 1, value_out = Some (reverse_endian vt2),
                       cache = cacheBase\<lparr>cacheSetArray := st2\<rparr>,
                       reads = [address - offset]\<rparr>
                else
                  Inr \<lparr>ret = 0, value_out = None,
                       cache = cacheBase\<lparr>cacheSetArray := st2\<rparr>,
                       reads = [address - offset]\<rparr>))"

text \<open>
  The branch of a word that crosses into the next block (lines 274-371). Both scans
  come first (lines 286-323), then the eviction and fill of the first half (lines
  329-344), then those of the second half (lines 350-365). After that the value is
  stored (line 368) and control leaves the branch to the \<open>return 0\<close> of line 371.

  \<open>across_second\<close> is the code from line 350 on, run on the set and the buffer that the
  first half left; \<open>rd\<close> are the reads made so far.
\<close>

definition across_second ::
  "memget_fn \<Rightarrow> 32 word \<Rightarrow> cache_base \<Rightarrow> 64 word \<Rightarrow> 64 word \<Rightarrow> 32 word \<Rightarrow> 32 word \<Rightarrow>
   bool \<Rightarrow> cache_set \<Rightarrow> 8 word list \<Rightarrow> 64 word list \<Rightarrow> error + outcome" where
  "across_second memget numOfLines cacheBase blockAddress newTag n1 n2 isHitLine2 st vt rd =
     (if \<not> isHitLine2 then
        (case fetch_line memget st newTag numOfLines blockAddress vt 0 n2 n1 of
           Inl err \<Rightarrow> Inl err
         | Inr (ok, st1, vt1) \<Rightarrow>
             if ok then
               Inr \<lparr>ret = 0, value_out = Some (reverse_endian vt1),
                    cache = cacheBase\<lparr>cacheSetArray := st1\<rparr>,
                    reads = rd @ [blockAddress]\<rparr>
             else
               Inr \<lparr>ret = 0, value_out = None,
                    cache = cacheBase\<lparr>cacheSetArray := st1\<rparr>,
                    reads = rd @ [blockAddress]\<rparr>)
      else Inr \<lparr>ret = 0, value_out = Some (reverse_endian vt),
                cache = cacheBase\<lparr>cacheSetArray := st\<rparr>, reads = rd\<rparr>)"

definition cache_get_across ::
  "memget_fn \<Rightarrow> 32 word \<Rightarrow> cache_base \<Rightarrow> 64 word \<Rightarrow> 64 word \<Rightarrow> 64 word \<Rightarrow> error + outcome" where
  "cache_get_across memget numOfLines cacheBase address offset tg =
     (let st = cacheSetArray cacheBase; valueTemp = replicate 8 0;
          newAddress = address + (ucast sizeOfBlock - offset);
          (newOffset, newTag) = address_decomposer newAddress;
          n1 = ucast (ucast sizeOfBlock - offset) :: 32 word;
          n2 = ucast (8 - (ucast sizeOfBlock - offset)) :: 32 word;
          (isHitLine1, st1, vt1) = scan_line st tg numOfLines valueTemp (unat offset) n1 0;
          (isHitLine2, st2, vt2) = scan_line st1 newTag numOfLines vt1 0 n2 n1
      in if \<not> isHitLine1 then
           (case fetch_line memget st2 tg numOfLines (address - offset) vt2 (unat offset) n1 0 of
              Inl err \<Rightarrow> Inl err
            | Inr (ok, st3, vt3) \<Rightarrow>
                if ok then
                  across_second memget numOfLines cacheBase (newAddress - newOffset) newTag
                    n1 n2 isHitLine2 st3 vt3 [address - offset]
                else
                  Inr \<lparr>ret = 0, value_out = None,
                       cache = cacheBase\<lparr>cacheSetArray := st3\<rparr>,
                       reads = [address - offset]\<rparr>)
         else across_second memget numOfLines cacheBase (newAddress - newOffset) newTag
                n1 n2 isHitLine2 st2 vt2 [])"

definition cache_get :: "memget_fn \<Rightarrow> 32 word \<Rightarrow> cache_base \<Rightarrow> 64 word \<Rightarrow> error + outcome" where
  "cache_get memget numOfLines F_memory address =
     (let cacheBase = (if initialized F_memory = 0 then init numOfLines F_memory else F_memory);
          (offset, tg) = address_decomposer address
      in if offset + 8 \<le> ucast sizeOfBlock
         then cache_get_within memget numOfLines cacheBase address offset tg
         else cache_get_across memget numOfLines cacheBase address offset tg)"

section \<open>Notions used to state the properties\<close>

text \<open>What the ageing loops do to one line, given the time \<open>t\<close> of the touched line.\<close>

definition aged :: "32 word \<Rightarrow> cache_line \<Rightarrow> cache_line" where
  "aged t l = (if time l < t then l\<lparr>time := time l + 1\<rparr> else l)"

text \<open>The same on the times read as numbers: the touched time goes to 0, smaller ones go up by one.\<close>

definition shift :: "nat \<Rightarrow> nat \<Rightarrow> nat" where
  "shift t x = (if x < t then x + 1 else if x = t then 0 else x)"

text \<open>
  The recency invariant: the times of the lines of the set, in array order, are a
  permutation of \<open>0, \<dots>, numOfLines - 1\<close>. It fixes the length of the array too.
\<close>

definition recency_perm :: "32 word \<Rightarrow> cache_set \<Rightarrow> bool" where
  "recency_perm n st \<longleftrightarrow>
     mset (map (\<lambda>l. unat (time l)) (cacheLineArray st)) = mset [0..<unat n]"

text \<open>
  The states of the fast memory that a run can reach: \<open>init\<close> on a fast memory that
  holds \<open>numOfLines\<close> lines, then any number of calls of \<open>cache_get\<close> that return, each
  with any address and any behaviour of the backing memory. The first call on a fast
  memory whose flag is clear runs \<open>init\<close> itself.
\<close>

inductive reachable :: "32 word \<Rightarrow> cache_base \<Rightarrow> bool" for n :: "32 word" where
  reach_init:
    "length (cacheLineArray (cacheSetArray F_memory)) = unat n \<Longrightarrow> reachable n (init n F_memory)"
| reach_first:
    "length (cacheLineArray (cacheSetArray F_memory)) = unat n \<Longrightarrow> initialized F_memory = 0 \<Longrightarrow>
     cache_get memget n F_memory a = Inr r \<Longrightarrow> reachable n (cache r)"
| reach_get:
    "reachable n c \<Longrightarrow> cache_get memget n c a = Inr r \<Longrightarrow> reachable n (cache r)"

text \<open>
  Sample data for instances of the theorems: a fast memory of two lines that was never
  initialised and holds leftovers, a backing memory whose byte at address \<open>x\<close> is
  \<open>x + x div 2^32\<close> modulo 256, and one every read of which fails and leaves the buffer alone.
\<close>

definition stale_line :: cache_line where
  "stale_line = \<lparr>time = 7, valid = 3, tag = 9, cacheBlock = replicate 64 0\<rparr>"

definition arena2 :: cache_base where
  "arena2 = \<lparr>initialized = 0, cacheSetArray = \<lparr>cacheLineArray = [stale_line, stale_line]\<rparr>\<rparr>"

definition backing :: memget_fn where
  "backing a buf len = (True, map (\<lambda>k. ucast a + ucast (drop_bit 32 a) + of_nat k) [0..<64])"

definition failing :: memget_fn where
  "failing a buf len = (False, buf)"

text \<open>A set of three lines with the times 2, 0, 1.\<close>

definition lru3 :: cache_set where
  "lru3 = \<lparr>cacheLineArray =
     [stale_line\<lparr>time := 2\<rparr>, stale_line\<lparr>time := 0\<rparr>, stale_line\<lparr>time := 1\<rparr>]\<rparr>"

text \<open>The set after \<open>findEvict\<close> chose line \<open>e\<close> for the tag \<open>tg\<close>, in closed form.\<close>

definition installed :: "32 word \<Rightarrow> cache_set \<Rightarrow> nat \<Rightarrow> 64 word \<Rightarrow> cache_set" where
  "installed n st e tg = st\<lparr>cacheLineArray :=
     (map (aged (n - 1)) (cacheLineArray st))
       [e := (cacheLineArray st ! e)\<lparr>time := 0, valid := 1, tag := ucast tg\<rparr>]\<rparr>"

text \<open>The set after \<open>memget\<close> left \<open>blk\<close> in the block of line \<open>e\<close>.\<close>

definition filled :: "cache_set \<Rightarrow> nat \<Rightarrow> 8 word list \<Rightarrow> cache_set" where
  "filled st e blk = st\<lparr>cacheLineArray :=
     (cacheLineArray st)[e := (cacheLineArray st ! e)\<lparr>cacheBlock := blk\<rparr>]\<rparr>"

text \<open>An address whose tag is \<open>2^32\<close>, one more than the tag field of a line can hold.\<close>

definition wide_address :: "64 word" where
  "wide_address = 0x4000000000"

text \<open>The fast memory after a stream of requests, each served by \<open>cache_get\<close>.\<close>

fun cache_after :: "memget_fn \<Rightarrow> 32 word \<Rightarrow> cache_base \<Rightarrow> 64 word list \<Rightarrow> error + cache_base" where
  "cache_after memget n c [] = Inr c"
| "cache_after memget n c (a # as) =
     (case cache_get memget n c a of Inl err \<Rightarrow> Inl err | Inr r \<Rightarrow> cache_after memget n (cache r) as)"

text \<open>The backing memory \<open>backing\<close>, except that every read at the address \<open>x\<close> fails.\<close>

definition backing_but :: "64 word \<Rightarrow> memget_fn" where
  "backing_but x a buf len = (if a = x then (False, buf) else backing a buf len)"

section \<open>Address decomposition: properties\<close>

lemma offsetBit_eq: "offsetBit = 6"
  unfolding offsetBit_def sizeOfBlock_def by (simp add: compute_floorlog)

lemma offsetMask_eq: "NOT (push_bit 6 (0xffffffffffffffff :: 64 word)) = mask 6"
proof -
  have a: "(0xffffffffffffffff :: 64 word) = - 1" by simp
  have b: "NOT (push_bit 6 (- 1 :: 64 word)) = mask 6"
    by (simp add: push_bit_minus_one_eq_not_mask)
  show ?thesis unfolding a by (rule b)
qed

lemma address_decomposer_eq:
  "address_decomposer a = (take_bit 6 a, drop_bit 6 a)"
  unfolding address_decomposer_def offsetBit_eq Let_def offsetMask_eq
  by (simp only: take_bit_eq_mask)

lemma offset_less: "take_bit 6 (a :: 64 word) < 64"
proof -
  have "unat (take_bit 6 a) < 2 ^ 6"
    by (simp add: take_bit_eq_mod unat_mod)
  then show ?thesis by (simp add: word_less_nat_alt)
qed

text \<open>
  C8. \<open>address_decomposer\<close> is a total function of the address alone. With the block
  size 64 the offset width is 6 bits: the offset is \<open>address & 63\<close>, that is the
  address modulo 64, the tag is \<open>address >> 6\<close>, that is the address divided by 64;
  \<open>tag * 64 + offset\<close> gives the address back and the offset is below 64.
\<close>

theorem address_decomposer_spec:
  "offsetBit = 6 \<and>
   address_decomposer a = (a AND 63, drop_bit 6 a) \<and>
   unat (fst (address_decomposer a)) = unat a mod 64 \<and>
   unat (snd (address_decomposer a)) = unat a div 64 \<and>
   snd (address_decomposer a) * 64 + fst (address_decomposer a) = a \<and>
   fst (address_decomposer a) < 64"
proof -
  have m: "(63 :: 64 word) = mask 6" by (simp add: mask_eq_exp_minus_1)
  have 1: "address_decomposer a = (a AND 63, drop_bit 6 a)"
    unfolding address_decomposer_eq m by (simp only: take_bit_eq_mask)
  have 2: "unat (take_bit 6 a) = unat a mod 64"
    by (simp add: take_bit_eq_mod unat_mod)
  have 3: "unat (drop_bit 6 a) = unat a div 64"
    by (simp add: drop_bit_eq_div unat_div)
  have 4: "drop_bit 6 a * 64 + take_bit 6 a = a"
  proof -
    have "push_bit 6 (drop_bit 6 a) + take_bit 6 a = a" by (rule bits_ident)
    moreover have "push_bit 6 (drop_bit 6 a) = drop_bit 6 a * 64"
      unfolding push_bit_eq_mult by simp
    ultimately show ?thesis by (simp only:)
  qed
  show ?thesis
    unfolding 1 [symmetric]
    unfolding address_decomposer_eq fst_conv snd_conv
    using 2 3 4 offset_less [of a] offsetBit_eq by blast
qed

section \<open>The loops of the LRU bookkeeping\<close>

lemma age_step_alt: "age_step l k xs = xs[k := aged (time (xs ! l)) (xs ! k)]"
  by (simp add: age_step_def aged_def)

lemma age_fold_nth:
  assumes "l < length ls" "k \<le> length ls"
  shows "length (fold (age_step l) [0..<k] ls) = length ls \<and>
         (\<forall>i<length ls. fold (age_step l) [0..<k] ls ! i =
            (if i < k then aged (time (ls ! l)) (ls ! i) else ls ! i))"
  using assms(2)
proof (induction k)
  case 0
  then show ?case by simp
next
  case (Suc k)
  let ?ls = "fold (age_step l) [0..<k] ls"
  from Suc have len: "length ?ls = length ls"
    and nth: "\<And>i. i < length ls \<Longrightarrow>
      ?ls ! i = (if i < k then aged (time (ls ! l)) (ls ! i) else ls ! i)"
    by simp_all
  have l: "time (?ls ! l) = time (ls ! l)"
    using nth [OF assms(1)] by (simp add: aged_def)
  have k: "?ls ! k = ls ! k"
    using nth [of k] Suc.prems by simp
  have "age_step l k ?ls = ?ls[k := aged (time (ls ! l)) (ls ! k)]"
    unfolding age_step_alt l k ..
  then have step: "fold (age_step l) [0..<Suc k] ls = ?ls[k := aged (time (ls ! l)) (ls ! k)]"
    by simp
  have "length (?ls[k := aged (time (ls ! l)) (ls ! k)]) = length ls"
    using len by simp
  moreover have "?ls[k := aged (time (ls ! l)) (ls ! k)] ! i =
      (if i < Suc k then aged (time (ls ! l)) (ls ! i) else ls ! i)" if "i < length ls" for i
  proof (cases "i = k")
    case True
    then show ?thesis using len that by simp
  next
    case False
    then show ?thesis using nth [OF that] by (simp add: less_Suc_eq)
  qed
  ultimately show ?case
    unfolding step by blast
qed

lemma age_fold:
  assumes "l < length ls"
  shows "fold (age_step l) [0..<length ls] ls = map (aged (time (ls ! l))) ls"
proof (rule nth_equalityI)
  show "length (fold (age_step l) [0..<length ls] ls) = length (map (aged (time (ls ! l))) ls)"
    using age_fold_nth [OF assms order_refl] by simp
  fix i
  assume "i < length (fold (age_step l) [0..<length ls] ls)"
  then have "i < length ls"
    using age_fold_nth [OF assms order_refl] by simp
  then show "fold (age_step l) [0..<length ls] ls ! i = map (aged (time (ls ! l))) ls ! i"
    using age_fold_nth [OF assms order_refl] by simp
qed

lemma victim_fold:
  assumes "\<forall>i<k. P i \<longrightarrow> i = e"
  shows "fold (\<lambda>i ev. if P i then Some i else ev) [0..<k] ev0 = (if e < k \<and> P e then Some e else ev0)"
  using assms
proof (induction k)
  case 0
  then show ?case by simp
next
  case (Suc k)
  let ?f = "\<lambda>i ev. if P i then Some i else ev"
  have ih: "fold ?f [0..<k] ev0 = (if e < k \<and> P e then Some e else ev0)"
    using Suc by simp
  have step: "fold ?f [0..<Suc k] ev0 = (if P k then Some k else fold ?f [0..<k] ev0)"
    by simp
  show ?case
  proof (cases "P k")
    case True
    with Suc.prems have "k = e" by simp
    with True show ?thesis unfolding step by simp
  next
    case False
    then have "(e < Suc k \<and> P e) = (e < k \<and> P e)"
      by (metis less_Suc_eq)
    with False show ?thesis unfolding step ih by simp
  qed
qed

lemma perm_length: "recency_perm n st \<Longrightarrow> length (cacheLineArray st) = unat n"
proof -
  assume "recency_perm n st"
  then have "length (map (\<lambda>l. unat (time l)) (cacheLineArray st)) = length [0..<unat n]"
    unfolding recency_perm_def by (rule mset_eq_length)
  then show ?thesis by simp
qed

lemma perm_distinct:
  "recency_perm n st \<Longrightarrow> distinct (map (\<lambda>l. unat (time l)) (cacheLineArray st))"
  unfolding recency_perm_def
  by (metis distinct_upt mset_eq_imp_distinct_iff)

lemma perm_set:
  "recency_perm n st \<Longrightarrow> set (map (\<lambda>l. unat (time l)) (cacheLineArray st)) = {0..<unat n}"
  unfolding recency_perm_def
  by (metis mset_eq_setD set_upt)

lemma perm_time_less:
  assumes "recency_perm n st" "i < unat n"
  shows "unat (time (cacheLineArray st ! i)) < unat n"
proof -
  have "unat (time (cacheLineArray st ! i)) \<in> set (map (\<lambda>l. unat (time l)) (cacheLineArray st))"
    using assms perm_length [OF assms(1)] by simp
  then show ?thesis using perm_set [OF assms(1)] by simp
qed

lemma perm_time_inj:
  assumes "recency_perm n st" "i < unat n" "j < unat n"
    "time (cacheLineArray st ! i) = time (cacheLineArray st ! j)"
  shows "i = j"
proof -
  let ?xs = "map (\<lambda>l. unat (time l)) (cacheLineArray st)"
  have "?xs ! i = ?xs ! j" "i < length ?xs" "j < length ?xs"
    using assms perm_length [OF assms(1)] by simp_all
  then show ?thesis using perm_distinct [OF assms(1)] nth_eq_iff_index_eq by blast
qed

lemma perm_time_ex:
  assumes "recency_perm n st" "t < unat n"
  shows "\<exists>i<unat n. unat (time (cacheLineArray st ! i)) = t"
proof -
  have "t \<in> set (map (\<lambda>l. unat (time l)) (cacheLineArray st))"
    using perm_set [OF assms(1)] assms(2) by simp
  then obtain i where "i < length (cacheLineArray st)" "unat (time (cacheLineArray st ! i)) = t"
    by (auto simp: in_set_conv_nth)
  then show ?thesis using perm_length [OF assms(1)] by auto
qed

lemma shift_perm:
  assumes "t < n"
  shows "mset (map (shift t) [0..<n]) = mset [0..<n]"
proof -
  have inj: "inj_on (shift t) {0..<n}"
    unfolding inj_on_def shift_def by (auto split: if_splits)
  have sub: "shift t ` {0..<n} \<subseteq> {0..<n}"
    using assms by (auto simp: shift_def)
  have "card (shift t ` {0..<n}) = card {0..<n}"
    using inj by (rule card_image)
  with sub have img: "shift t ` {0..<n} = {0..<n}"
    by (simp add: card_subset_eq)
  have d: "distinct (map (shift t) [0..<n])"
    using inj by (simp add: distinct_map)
  have s: "set (map (shift t) [0..<n]) = set [0..<n]"
    using img by simp
  show ?thesis
    using d s set_eq_iff_mset_eq_distinct [of "map (shift t) [0..<n]" "[0..<n]"] distinct_upt by blast
qed

lemma shift_perm_list:
  assumes "mset xs = mset [0..<n]" "t < n"
  shows "mset (map (shift t) xs) = mset [0..<n]"
proof -
  have "mset (map (shift t) xs) = image_mset (shift t) (mset xs)" by simp
  also have "\<dots> = mset (map (shift t) [0..<n])" using assms(1) by simp
  finally show ?thesis using shift_perm [OF assms(2)] by simp
qed


lemma unat_succ_less:
  fixes x t :: "32 word"
  assumes "x < t"
  shows "unat (x + 1) = unat x + 1"
proof -
  have "unat x < unat t" using assms by (simp add: word_less_nat_alt)
  moreover have "unat t < 2 ^ 32" using unsigned_less [of t] by simp
  ultimately have "unat x + 1 < 2 ^ 32" by simp
  then show ?thesis by (simp add: unat_word_ariths)
qed

lemma setLRU_lines:
  assumes "length (cacheLineArray st) = unat n" "l < unat n"
  shows "cacheLineArray (setLRU st l n) =
         (map (aged (time (cacheLineArray st ! l))) (cacheLineArray st))
           [l := (cacheLineArray st ! l)\<lparr>time := 0\<rparr>]"
proof -
  have l: "l < length (cacheLineArray st)" using assms by simp
  have "fold (age_step l) [0..<unat n] (cacheLineArray st) =
        map (aged (time (cacheLineArray st ! l))) (cacheLineArray st)"
    using age_fold [OF l] assms(1) by simp
  then show ?thesis
    unfolding setLRU_def Let_def using l by (simp add: aged_def)
qed

lemma touched_times:
  assumes "recency_perm n st" "l < unat n"
  shows "map (\<lambda>x. unat (time x))
           ((map (aged (time (cacheLineArray st ! l))) (cacheLineArray st))
              [l := (cacheLineArray st ! l)\<lparr>time := 0, valid := v, tag := g\<rparr>]) =
         map (shift (unat (time (cacheLineArray st ! l))))
           (map (\<lambda>x. unat (time x)) (cacheLineArray st))"
    (is "map ?u (?ls[l := ?x]) = map (shift ?t) (map ?u ?xs)")
proof (rule nth_equalityI)
  show "length (map ?u (?ls[l := ?x])) = length (map (shift ?t) (map ?u ?xs))"
    by simp
  fix i
  assume "i < length (map ?u (?ls[l := ?x]))"
  then have i: "i < length ?xs" by simp
  then have i': "i < unat n" using perm_length [OF assms(1)] by simp
  show "map ?u (?ls[l := ?x]) ! i = map (shift ?t) (map ?u ?xs) ! i"
  proof (cases "i = l")
    case True
    then show ?thesis using i by (simp add: shift_def)
  next
    case False
    then have ne: "time (?xs ! i) \<noteq> time (?xs ! l)"
      using perm_time_inj [OF assms(1) i' assms(2)] by blast
    show ?thesis
    proof (cases "time (?xs ! i) < time (?xs ! l)")
      case True
      then have "unat (time (?xs ! i)) < ?t" by (simp add: word_less_nat_alt)
      then show ?thesis
        using False i True unat_succ_less [OF True] by (simp add: shift_def aged_def)
    next
      case nl: False
      then have "\<not> unat (time (?xs ! i)) < ?t" by (simp add: word_less_nat_alt)
      moreover have "unat (time (?xs ! i)) \<noteq> ?t" using ne by (simp add: word_unat_eq_iff)
      ultimately show ?thesis
        using False i nl by (simp add: shift_def aged_def)
    qed
  qed
qed

lemma lines_upd: "cacheLineArray (st\<lparr>cacheLineArray := X\<rparr>) = X"
  by simp

lemma touched_perm:
  assumes "recency_perm n st" "l < unat n"
  shows "recency_perm n (st\<lparr>cacheLineArray :=
           (map (aged (time (cacheLineArray st ! l))) (cacheLineArray st))
              [l := (cacheLineArray st ! l)\<lparr>time := 0, valid := v, tag := g\<rparr>]\<rparr>)"
proof -
  have t: "unat (time (cacheLineArray st ! l)) < unat n"
    using perm_time_less [OF assms] .
  have m: "mset (map (\<lambda>x. unat (time x)) (cacheLineArray st)) = mset [0..<unat n]"
    using assms(1) unfolding recency_perm_def .
  show ?thesis
    unfolding recency_perm_def lines_upd touched_times [OF assms]
    using shift_perm_list [OF m t] .
qed

lemma setLRU_perm:
  assumes "recency_perm n st" "l < unat n"
  shows "recency_perm n (setLRU st l n)"
proof -
  let ?x = "cacheLineArray st ! l"
  have x: "?x\<lparr>time := 0\<rparr> = ?x\<lparr>time := 0, valid := valid ?x, tag := tag ?x\<rparr>"
    by simp
  have "setLRU st l n = st\<lparr>cacheLineArray := cacheLineArray (setLRU st l n)\<rparr>"
    by (simp add: setLRU_def Let_def)
  also have "\<dots> = st\<lparr>cacheLineArray :=
       (map (aged (time ?x)) (cacheLineArray st))[l := ?x\<lparr>time := 0, valid := valid ?x, tag := tag ?x\<rparr>]\<rparr>"
    using setLRU_lines [OF perm_length [OF assms(1)] assms(2)] x by simp
  finally show ?thesis
    using touched_perm [OF assms, where v = "valid ?x" and g = "tag ?x"] by simp
qed

lemma perm_victim:
  assumes "recency_perm n st" "n \<noteq> 0"
  shows "\<exists>e<unat n. time (cacheLineArray st ! e) = n - 1 \<and>
           (\<forall>i<unat n. time (cacheLineArray st ! i) = n - 1 \<longrightarrow> i = e)"
proof -
  have n: "0 < unat n" using assms(2) by (simp add: unat_gt_0)
  then have "unat n - 1 < unat n" by simp
  then obtain e where e: "e < unat n" "unat (time (cacheLineArray st ! e)) = unat n - 1"
    using perm_time_ex [OF assms(1)] by blast
  have "unat (n - 1) = unat n - 1"
    using n by (simp add: unat_minus_one assms(2))
  with e have t: "time (cacheLineArray st ! e) = n - 1"
    by (simp add: word_unat_eq_iff)
  have "i = e" if "i < unat n" "time (cacheLineArray st ! i) = n - 1" for i
    using perm_time_inj [OF assms(1) that(1) e(1)] that(2) t by simp
  with e(1) t show ?thesis by blast
qed

lemma findEvict_result:
  assumes "recency_perm n st" "e < unat n" "time (cacheLineArray st ! e) = n - 1"
    "\<forall>i<unat n. time (cacheLineArray st ! i) = n - 1 \<longrightarrow> i = e"
  shows "findEvict st tg n = Inr (e, st\<lparr>cacheLineArray :=
           (map (aged (n - 1)) (cacheLineArray st))
              [e := (cacheLineArray st ! e)\<lparr>time := 0, valid := 1, tag := ucast tg\<rparr>]\<rparr>)"
proof -
  have len: "length (cacheLineArray st) = unat n" using perm_length [OF assms(1)] .
  have sel: "evicted_line st n = Some e"
    unfolding evicted_line_def
    using victim_fold [of "unat n" "\<lambda>i. time (cacheLineArray st ! i) = n - 1" e None, OF assms(4)]
      assms(2,3) by simp
  have age: "fold (age_step e) [0..<unat n] (cacheLineArray st) =
             map (aged (n - 1)) (cacheLineArray st)"
    using age_fold [of e "cacheLineArray st"] assms(2,3) len by simp
  have same: "map (aged (n - 1)) (cacheLineArray st) ! e = cacheLineArray st ! e"
    using assms(2,3) len by (simp add: aged_def)
  show ?thesis
    unfolding findEvict_def Let_def sel age option.case same ..
qed

lemma findEvict_perm:
  assumes "recency_perm n st" "findEvict st tg n = Inr (e, st')"
  shows "recency_perm n st'"
proof -
  have n: "n \<noteq> 0"
  proof
    assume "n = 0"
    then have "findEvict st tg n = Inl UninitialisedEvictedLine"
      by (simp add: findEvict_def evicted_line_def)
    with assms(2) show False by simp
  qed
  obtain v where v: "v < unat n" "time (cacheLineArray st ! v) = n - 1"
    "\<forall>i<unat n. time (cacheLineArray st ! i) = n - 1 \<longrightarrow> i = v"
    using perm_victim [OF assms(1) n] by blast
  have "st' = st\<lparr>cacheLineArray :=
           (map (aged (time (cacheLineArray st ! v))) (cacheLineArray st))
              [v := (cacheLineArray st ! v)\<lparr>time := 0, valid := 1, tag := ucast tg\<rparr>]\<rparr>"
    using findEvict_result [OF assms(1) v, of tg] assms(2) v(2) by simp
  then show ?thesis
    using touched_perm [OF assms(1) v(1), where v = 1 and g = "ucast tg"] by simp
qed

lemma init_fold_nth:
  assumes "k \<le> length ls"
  shows "length (fold (\<lambda>j ls. ls[j := (ls ! j)\<lparr>time := of_nat j, valid := 0, tag := 0\<rparr>]) [0..<k] ls) = length ls \<and>
    (\<forall>i<length ls. fold (\<lambda>j ls. ls[j := (ls ! j)\<lparr>time := of_nat j, valid := 0, tag := 0\<rparr>]) [0..<k] ls ! i =
        (if i < k then (ls ! i)\<lparr>time := of_nat i, valid := 0, tag := 0\<rparr> else ls ! i))"
  using assms
proof (induction k)
  case 0
  then show ?case by simp
next
  case (Suc k)
  let ?f = "\<lambda>j ls. ls[j := (ls ! j)\<lparr>time := of_nat j, valid := 0, tag := (0 :: 32 word)\<rparr>]"
  let ?ls = "fold ?f [0..<k] ls"
  from Suc have len: "length ?ls = length ls"
    and nth: "\<And>i. i < length ls \<Longrightarrow>
      ?ls ! i = (if i < k then (ls ! i)\<lparr>time := of_nat i, valid := 0, tag := 0\<rparr> else ls ! i)"
    by simp_all
  have k: "?ls ! k = ls ! k"
    using nth [of k] Suc.prems by simp
  have step: "fold ?f [0..<Suc k] ls = ?ls[k := (ls ! k)\<lparr>time := of_nat k, valid := 0, tag := 0\<rparr>]"
    using k by simp
  have "length (?ls[k := (ls ! k)\<lparr>time := of_nat k, valid := 0, tag := 0\<rparr>]) = length ls"
    using len by simp
  moreover have "?ls[k := (ls ! k)\<lparr>time := of_nat k, valid := 0, tag := 0\<rparr>] ! i =
      (if i < Suc k then (ls ! i)\<lparr>time := of_nat i, valid := 0, tag := 0\<rparr> else ls ! i)"
    if "i < length ls" for i
  proof (cases "i = k")
    case True
    then show ?thesis using len that by simp
  next
    case False
    then show ?thesis using nth [OF that] by (simp add: less_Suc_eq)
  qed
  ultimately show ?case
    unfolding step by blast
qed

lemma init_lines:
  assumes "length (cacheLineArray (cacheSetArray c)) = unat n"
  shows "cacheLineArray (cacheSetArray (init n c)) =
         map (\<lambda>i. (cacheLineArray (cacheSetArray c) ! i)\<lparr>time := of_nat i, valid := 0, tag := 0\<rparr>)
           [0..<unat n]"
proof (rule nth_equalityI)
  show "length (cacheLineArray (cacheSetArray (init n c))) =
        length (map (\<lambda>i. (cacheLineArray (cacheSetArray c) ! i)\<lparr>time := of_nat i, valid := 0, tag := 0\<rparr>) [0..<unat n])"
    using init_fold_nth [of "unat n" "cacheLineArray (cacheSetArray c)"] assms
    by (simp add: init_def Let_def)
  fix i
  assume "i < length (cacheLineArray (cacheSetArray (init n c)))"
  then have "i < unat n"
    using init_fold_nth [of "unat n" "cacheLineArray (cacheSetArray c)"] assms
    by (simp add: init_def Let_def)
  then show "cacheLineArray (cacheSetArray (init n c)) ! i =
        map (\<lambda>i. (cacheLineArray (cacheSetArray c) ! i)\<lparr>time := of_nat i, valid := 0, tag := 0\<rparr>) [0..<unat n] ! i"
    using init_fold_nth [of "unat n" "cacheLineArray (cacheSetArray c)"] assms
    by (simp add: init_def Let_def)
qed

lemma init_perm:
  assumes "length (cacheLineArray (cacheSetArray c)) = unat n"
  shows "recency_perm n (cacheSetArray (init n c))"
proof -
  have "map (\<lambda>l. unat (time l)) (cacheLineArray (cacheSetArray (init n c))) =
        map (\<lambda>i. unat (of_nat i :: 32 word)) [0..<unat n]"
    unfolding init_lines [OF assms] by (simp add: comp_def)
  also have "\<dots> = map (\<lambda>i. i) [0..<unat n]"
  proof (rule map_cong [OF refl])
    fix i assume "i \<in> set [0..<unat n]"
    then have "i < unat n" by simp
    also have "unat n < 2 ^ 32" using unsigned_less [of n] by simp
    finally show "unat (of_nat i :: 32 word) = i"
      by (simp add: unat_of_nat)
  qed
  finally show ?thesis by (simp add: recency_perm_def)
qed


lemma aged_fields [simp]:
  "valid (aged t x) = valid x" "tag (aged t x) = tag x" "cacheBlock (aged t x) = cacheBlock x"
  by (simp_all add: aged_def)

lemma setLRU_nth:
  assumes "length (cacheLineArray st) = unat n" "l < unat n" "j < unat n"
  shows "cacheLineArray (setLRU st l n) ! j =
         (if j = l then (cacheLineArray st ! l)\<lparr>time := 0\<rparr>
          else aged (time (cacheLineArray st ! l)) (cacheLineArray st ! j))"
  unfolding setLRU_lines [OF assms(1,2)] using assms by (simp add: nth_list_update)

lemma setLRU_length:
  assumes "length (cacheLineArray st) = unat n" "l < unat n"
  shows "length (cacheLineArray (setLRU st l n)) = unat n"
  unfolding setLRU_lines [OF assms] using assms by simp

lemma fill_line_eq:
  "fill_line m a st e =
     (fst (m a (cacheBlock (cacheLineArray st ! e)) 64),
      st\<lparr>cacheLineArray := (cacheLineArray st)
           [e := (cacheLineArray st ! e)\<lparr>cacheBlock := snd (m a (cacheBlock (cacheLineArray st ! e)) 64)\<rparr>]\<rparr>)"
  by (simp add: fill_line_def Let_def split_beta)

lemma fill_line_times:
  "map time (cacheLineArray (snd (fill_line m a st e))) = map time (cacheLineArray st)"
proof (rule nth_equalityI)
  show "length (map time (cacheLineArray (snd (fill_line m a st e)))) = length (map time (cacheLineArray st))"
    by (simp add: fill_line_eq)
  fix i
  assume "i < length (map time (cacheLineArray (snd (fill_line m a st e))))"
  then have "i < length (cacheLineArray st)" by (simp add: fill_line_eq)
  then show "map time (cacheLineArray (snd (fill_line m a st e))) ! i = map time (cacheLineArray st) ! i"
    by (cases "i = e") (simp_all add: fill_line_eq)
qed

lemma fill_line_perm:
  assumes "recency_perm n st"
  shows "recency_perm n (snd (fill_line m a st e))"
proof -
  have "map (\<lambda>l. unat (time l)) (cacheLineArray (snd (fill_line m a st e))) =
        map unat (map time (cacheLineArray (snd (fill_line m a st e))))"
    by (simp add: comp_def)
  also have "\<dots> = map unat (map time (cacheLineArray st))"
    unfolding fill_line_times ..
  also have "\<dots> = map (\<lambda>l. unat (time l)) (cacheLineArray st)"
    by (simp add: comp_def)
  finally show ?thesis using assms unfolding recency_perm_def by simp
qed

lemma hit_line_Some:
  assumes "hit_line st tg n = Some i"
  shows "i < unat n \<and> valid (cacheLineArray st ! i) \<noteq> 0 \<and>
         ucast (tag (cacheLineArray st ! i)) = tg \<and>
         (\<forall>j<i. \<not> (valid (cacheLineArray st ! j) \<noteq> 0 \<and> ucast (tag (cacheLineArray st ! j)) = tg))"
proof -
  from assms obtain k where k: "k < length [0..<unat n]" "[0..<unat n] ! k = i"
    "valid (cacheLineArray st ! i) \<noteq> 0 \<and> ucast (tag (cacheLineArray st ! i)) = tg"
    "\<forall>j<k. \<not> (valid (cacheLineArray st ! ([0..<unat n] ! j)) \<noteq> 0 \<and>
        ucast (tag (cacheLineArray st ! ([0..<unat n] ! j))) = tg)"
    unfolding hit_line_def find_Some_iff by blast
  from k(1,2) have ki: "k = i" and i: "i < unat n" by simp_all
  have "\<not> (valid (cacheLineArray st ! j) \<noteq> 0 \<and> ucast (tag (cacheLineArray st ! j)) = tg)"
    if "j < i" for j
  proof -
    from that ki have "j < k" by simp
    moreover from that i have "[0..<unat n] ! j = j" by simp
    ultimately show ?thesis using k(4) by metis
  qed
  with i k(3) show ?thesis by blast
qed

lemma hit_line_None:
  "hit_line st tg n = None \<longleftrightarrow>
     (\<forall>i<unat n. \<not> (valid (cacheLineArray st ! i) \<noteq> 0 \<and> ucast (tag (cacheLineArray st ! i)) = tg))"
  unfolding hit_line_def find_None_iff by auto

lemma hit_line_first:
  assumes "i < unat n" "valid (cacheLineArray st ! i) \<noteq> 0" "ucast (tag (cacheLineArray st ! i)) = tg"
    "\<forall>j<i. \<not> (valid (cacheLineArray st ! j) \<noteq> 0 \<and> ucast (tag (cacheLineArray st ! j)) = tg)"
  shows "hit_line st tg n = Some i"
proof -
  have "hit_line st tg n \<noteq> None"
    using assms(1-3) unfolding hit_line_None by blast
  then obtain k where k: "hit_line st tg n = Some k" by blast
  note h = hit_line_Some [OF k]
  have "\<not> k < i" using h assms(4) by blast
  moreover have "\<not> i < k" using h assms(1-3) by blast
  ultimately show ?thesis using k by simp
qed

lemma scan_line_hit:
  assumes "hit_line st tg n = Some i"
  shows "scan_line st tg n vt skip k s =
     (True, setLRU st i n,
      cache_get_byElem vt (drop skip (cacheBlock (cacheLineArray (setLRU st i n) ! i))) k s)"
  unfolding scan_line_def assms by (simp add: Let_def)

lemma scan_line_miss:
  assumes "hit_line st tg n = None"
  shows "scan_line st tg n vt skip k s = (False, st, vt)"
  unfolding scan_line_def assms by simp

lemma scan_line_flag: "fst (scan_line st tg n vt skip k s) \<longleftrightarrow> hit_line st tg n \<noteq> None"
  unfolding scan_line_def by (simp add: Let_def split: option.splits)

lemma scan_line_perm:
  assumes "recency_perm n st"
  shows "recency_perm n (fst (snd (scan_line st tg n vt skip k s)))"
proof (cases "hit_line st tg n")
  case None
  then show ?thesis using assms by (simp add: scan_line_miss)
next
  case (Some i)
  then have "i < unat n" using hit_line_Some by blast
  then show ?thesis using setLRU_perm [OF assms] by (simp add: scan_line_hit [OF Some])
qed

lemma fetch_line_eq:
  assumes "findEvict st tg n = Inr (e, st1)"
  shows "fetch_line m st tg n ba vt skip k s =
     Inr (fst (fill_line m ba st1 e), snd (fill_line m ba st1 e),
          if fst (fill_line m ba st1 e)
          then cache_get_byElem vt
                 (drop skip (cacheBlock (cacheLineArray (snd (fill_line m ba st1 e)) ! e))) k s
          else vt)"
  unfolding fetch_line_def assms by (simp add: split_beta)

lemma fetch_line_Inr:
  assumes "fetch_line m st tg n ba vt skip k s = Inr x"
  obtains e st1 where "findEvict st tg n = Inr (e, st1)"
  using assms unfolding fetch_line_def by (cases "findEvict st tg n") auto

lemma fetch_line_perm:
  assumes "recency_perm n st" "fetch_line m st tg n ba vt skip k s = Inr (ok, st2, vt2)"
  shows "recency_perm n st2"
proof -
  obtain e st1 where f: "findEvict st tg n = Inr (e, st1)"
    using assms(2) by (rule fetch_line_Inr)
  have "recency_perm n st1"
    using findEvict_perm [OF assms(1) f] .
  then have "recency_perm n (snd (fill_line m ba st1 e))"
    by (rule fill_line_perm)
  then show ?thesis
    using assms(2) unfolding fetch_line_eq [OF f] by simp
qed

lemma cache_get_initialised:
  assumes "initialized c \<noteq> 0"
  shows "cache_get m n c a =
     (if take_bit 6 a + 8 \<le> 64
      then cache_get_within m n c a (take_bit 6 a) (drop_bit 6 a)
      else cache_get_across m n c a (take_bit 6 a) (drop_bit 6 a))"
  unfolding cache_get_def Let_def address_decomposer_eq sizeOfBlock_def using assms by simp

lemma init_initialized: "initialized (init n c) = 1"
  by (simp add: init_def Let_def)

lemma cache_get_fresh:
  assumes "initialized c = 0"
  shows "cache_get m n c a = cache_get m n (init n c) a"
  unfolding cache_get_def Let_def using assms by (simp add: init_initialized)


lemma within_perm:
  assumes "recency_perm n (cacheSetArray c)" "cache_get_within m n c a off tg = Inr r"
  shows "recency_perm n (cacheSetArray (cache r))"
proof -
  obtain h st1 vt1 where sc: "scan_line (cacheSetArray c) tg n (replicate 8 0) (unat off) 8 0 = (h, st1, vt1)"
    by (metis prod_cases3)
  have p1: "recency_perm n st1"
    using scan_line_perm [OF assms(1), of tg "replicate 8 0" "unat off" 8 0] sc by simp
  show ?thesis
  proof (cases h)
    case True
    then show ?thesis
      using assms(2) p1 unfolding cache_get_within_def Let_def sc by auto
  next
    case False
    show ?thesis
    proof (cases "fetch_line m st1 tg n (a - off) vt1 (unat off) 8 0")
      case (Inl err)
      then show ?thesis
        using assms(2) False unfolding cache_get_within_def Let_def sc by simp
    next
      case (Inr x)
      obtain ok st2 vt2 where x: "x = (ok, st2, vt2)" by (metis prod_cases3)
      have "recency_perm n st2"
        using fetch_line_perm [OF p1] Inr x by blast
      then show ?thesis
        using assms(2) False Inr x unfolding cache_get_within_def Let_def sc
        by (auto split: if_splits)
    qed
  qed
qed

lemma second_perm:
  assumes "recency_perm n st" "across_second m n c ba ntag n1 n2 h2 st vt rd = Inr r"
  shows "recency_perm n (cacheSetArray (cache r))"
proof (cases h2)
  case True
  then show ?thesis using assms unfolding across_second_def by auto
next
  case False
  show ?thesis
  proof (cases "fetch_line m st ntag n ba vt 0 n2 n1")
    case (Inl err)
    then show ?thesis using assms(2) False unfolding across_second_def by simp
  next
    case (Inr x)
    obtain ok st2 vt2 where x: "x = (ok, st2, vt2)" by (metis prod_cases3)
    have "recency_perm n st2"
      using fetch_line_perm [OF assms(1)] Inr x by blast
    then show ?thesis
      using assms(2) False Inr x unfolding across_second_def
      by (auto split: if_splits)
  qed
qed

lemma across_perm:
  assumes "recency_perm n (cacheSetArray c)" "cache_get_across m n c a off tg = Inr r"
  shows "recency_perm n (cacheSetArray (cache r))"
proof -
  let ?n1 = "ucast (ucast sizeOfBlock - off) :: 32 word"
  let ?n2 = "ucast (8 - (ucast sizeOfBlock - off)) :: 32 word"
  let ?na = "a + (ucast sizeOfBlock - off)"
  obtain noff ntag where nd: "address_decomposer ?na = (noff, ntag)"
    by (cases "address_decomposer ?na")
  obtain h1 st1 vt1 where s1: "scan_line (cacheSetArray c) tg n (replicate 8 0) (unat off) ?n1 0 = (h1, st1, vt1)"
    by (metis prod_cases3)
  obtain h2 st2 vt2 where s2: "scan_line st1 ntag n vt1 0 ?n2 ?n1 = (h2, st2, vt2)"
    by (metis prod_cases3)
  have p1: "recency_perm n st1"
    using scan_line_perm [OF assms(1), of tg "replicate 8 0" "unat off" ?n1 0] s1 by simp
  have p2: "recency_perm n st2"
    using scan_line_perm [OF p1, of ntag vt1 0 ?n2 ?n1] s2 by simp
  note unf = cache_get_across_def Let_def nd s1 s2 prod.case
  show ?thesis
  proof (cases h1)
    case True
    then have "across_second m n c (?na - noff) ntag ?n1 ?n2 h2 st2 vt2 [] = Inr r"
      using assms(2) unfolding unf by simp
    then show ?thesis using second_perm [OF p2] by blast
  next
    case False
    show ?thesis
    proof (cases "fetch_line m st2 tg n (a - off) vt2 (unat off) ?n1 0")
      case (Inl err)
      then show ?thesis
        using assms(2) False unfolding unf by simp
    next
      case (Inr x)
      obtain ok st3 vt3 where x: "x = (ok, st3, vt3)" by (metis prod_cases3)
      have p3: "recency_perm n st3"
        using fetch_line_perm [OF p2] Inr x by blast
      show ?thesis
      proof (cases ok)
        case True
        then have "across_second m n c (?na - noff) ntag ?n1 ?n2 h2 st3 vt3 [a - off] = Inr r"
          using assms(2) False Inr x unfolding unf by simp
        then show ?thesis using second_perm [OF p3] by blast
      next
        case nok: False
        then have "cache r = c\<lparr>cacheSetArray := st3\<rparr>"
          using assms(2) False Inr x unfolding unf by auto
        then show ?thesis using p3 by simp
      qed
    qed
  qed
qed

lemma cache_get_perm:
  assumes "recency_perm n (cacheSetArray c)" "initialized c \<noteq> 0" "cache_get m n c a = Inr r"
  shows "recency_perm n (cacheSetArray (cache r))"
  using assms(3) within_perm [OF assms(1)] across_perm [OF assms(1)]
  unfolding cache_get_initialised [OF assms(2)]
  by (auto split: if_splits)

section \<open>The recency invariant\<close>

lemma cache_get_within_flag:
  assumes "cache_get_within m n c a off tg = Inr r"
  shows "initialized (cache r) = initialized c"
  using assms unfolding cache_get_within_def Let_def
  by (auto simp: split_beta split: if_splits sum.splits)

lemma across_second_flag:
  assumes "across_second m n c ba ntag n1 n2 h2 st vt rd = Inr r"
  shows "initialized (cache r) = initialized c"
  using assms unfolding across_second_def
  by (auto simp: split_beta split: if_splits sum.splits)

lemma cache_get_across_flag:
  assumes "cache_get_across m n c a off tg = Inr r"
  shows "initialized (cache r) = initialized c"
  using assms across_second_flag unfolding cache_get_across_def Let_def
  by (auto simp: split_beta split: if_splits sum.splits)

lemma cache_get_flag:
  assumes "initialized c \<noteq> 0" "cache_get m n c a = Inr r"
  shows "initialized (cache r) = initialized c"
  using assms(2) cache_get_within_flag cache_get_across_flag
  unfolding cache_get_initialised [OF assms(1)]
  by (auto split: if_splits)

lemma reachable_ok:
  assumes "reachable n c"
  shows "initialized c = 1 \<and> recency_perm n (cacheSetArray c)"
  using assms
proof (induction rule: reachable.induct)
  case (reach_init F_memory)
  then show ?case by (simp add: init_initialized init_perm)
next
  case (reach_first F_memory memget a r)
  have g: "cache_get memget n (init n F_memory) a = Inr r"
    using reach_first(3) cache_get_fresh [OF reach_first(2)] by simp
  have i: "initialized (init n F_memory) \<noteq> 0" by (simp add: init_initialized)
  show ?case
    using cache_get_flag [OF i g] cache_get_perm [OF init_perm [OF reach_first(1)] i g]
    by (simp add: init_initialized)
next
  case (reach_get c memget a r)
  then have i: "initialized c \<noteq> 0" and p: "recency_perm n (cacheSetArray c)" by simp_all
  show ?case
    using cache_get_flag [OF i reach_get(2)] cache_get_perm [OF p i reach_get(2)] reach_get.IH
    by simp
qed

section \<open>The touch\<close>

lemma aged_time_less:
  assumes "time x < t"
  shows "unat (time (aged t x)) = unat (time x) + 1"
  using assms unat_succ_less [OF assms] by (simp add: aged_def)

lemma aged_time_ge:
  assumes "\<not> time x < t"
  shows "time (aged t x) = time x"
  using assms by (simp add: aged_def)

text \<open>
  C7. After \<open>setLRU\<close> on line \<open>l\<close> of a set that satisfies the recency invariant, the
  time of \<open>l\<close> is 0; every other line whose time was below the old time of \<open>l\<close> is one
  tick older; the lines whose time was above it keep their time; and among the lines
  other than \<open>l\<close> the order of the times is the same as before.
\<close>

theorem setLRU_touch:
  assumes "recency_perm n st" "l < unat n"
  shows "time (cacheLineArray (setLRU st l n) ! l) = 0 \<and>
    (\<forall>i<unat n. i \<noteq> l \<and> time (cacheLineArray st ! i) < time (cacheLineArray st ! l) \<longrightarrow>
        unat (time (cacheLineArray (setLRU st l n) ! i)) = unat (time (cacheLineArray st ! i)) + 1) \<and>
    (\<forall>i<unat n. i \<noteq> l \<and> time (cacheLineArray st ! l) < time (cacheLineArray st ! i) \<longrightarrow>
        time (cacheLineArray (setLRU st l n) ! i) = time (cacheLineArray st ! i)) \<and>
    (\<forall>i<unat n. \<forall>j<unat n. i \<noteq> l \<and> j \<noteq> l \<longrightarrow>
        (time (cacheLineArray (setLRU st l n) ! i) < time (cacheLineArray (setLRU st l n) ! j) \<longleftrightarrow>
         time (cacheLineArray st ! i) < time (cacheLineArray st ! j)))"
proof -
  let ?L = "cacheLineArray st" and ?L' = "cacheLineArray (setLRU st l n)"
  let ?t = "time (?L ! l)"
  note len = perm_length [OF assms(1)]
  have other: "?L' ! i = aged ?t (?L ! i)" if "i < unat n" "i \<noteq> l" for i
    using setLRU_nth [OF len assms(2) that(1)] that(2) by simp
  have ne: "time (?L ! i) \<noteq> ?t" if "i < unat n" "i \<noteq> l" for i
    using perm_time_inj [OF assms(1) that(1) assms(2)] that(2) by blast
  have 1: "time (?L' ! l) = 0"
    using setLRU_nth [OF len assms(2) assms(2)] by simp
  have 2: "unat (time (?L' ! i)) = unat (time (?L ! i)) + 1"
    if "i < unat n" "i \<noteq> l" "time (?L ! i) < ?t" for i
    using other [OF that(1,2)] aged_time_less [OF that(3)] by simp
  have 3: "time (?L' ! i) = time (?L ! i)"
    if "i < unat n" "i \<noteq> l" "?t < time (?L ! i)" for i
  proof -
    have "\<not> time (?L ! i) < ?t" using that(3) by simp
    then show ?thesis using other [OF that(1,2)] aged_time_ge by simp
  qed
  have 4: "time (?L' ! i) < time (?L' ! j) \<longleftrightarrow> time (?L ! i) < time (?L ! j)"
    if "i < unat n" "j < unat n" "i \<noteq> l" "j \<noteq> l" for i j
  proof -
    note ni = ne [OF that(1,3)] and nj = ne [OF that(2,4)]
    have ci: "time (?L ! i) < ?t \<or> ?t < time (?L ! i)" using ni by auto
    have cj: "time (?L ! j) < ?t \<or> ?t < time (?L ! j)" using nj by auto
    from ci cj show ?thesis
    proof (elim disjE)
      assume a: "time (?L ! i) < ?t" and b: "time (?L ! j) < ?t"
      show ?thesis
        using 2 [OF that(1,3) a] 2 [OF that(2,4) b] by (simp add: word_less_nat_alt)
    next
      assume a: "time (?L ! i) < ?t" and b: "?t < time (?L ! j)"
      have "unat (time (?L ! i)) < unat ?t" "unat ?t < unat (time (?L ! j))"
        using a b by (simp_all add: word_less_nat_alt)
      then show ?thesis
        using 2 [OF that(1,3) a] 3 [OF that(2,4) b] by (simp add: word_less_nat_alt)
    next
      assume a: "?t < time (?L ! i)" and b: "time (?L ! j) < ?t"
      have "unat ?t < unat (time (?L ! i))" "unat (time (?L ! j)) < unat ?t"
        using a b by (simp_all add: word_less_nat_alt)
      then show ?thesis
        using 3 [OF that(1,3) a] 2 [OF that(2,4) b] by (simp add: word_less_nat_alt)
    next
      assume a: "?t < time (?L ! i)" and b: "?t < time (?L ! j)"
      show ?thesis
        using 3 [OF that(1,3) a] 3 [OF that(2,4) b] by simp
    qed
  qed
  show ?thesis using 1 2 3 4 by blast
qed

theorem setLRU_touch_witness:
  "recency_perm 3 lru3 \<and> (2 :: nat) < unat (3 :: 32 word) \<and>
   map time (cacheLineArray lru3) = [2, 0, 1] \<and>
   map time (cacheLineArray (setLRU lru3 2 3)) = [2, 1, 0]"
proof -
  have p: "recency_perm 3 lru3"
    unfolding recency_perm_def by code_simp
  have l: "(2 :: nat) < unat (3 :: 32 word)" by simp
  have a: "map time (cacheLineArray lru3) = [2, 0, 1]" by code_simp
  have b: "map time (cacheLineArray (setLRU lru3 2 3)) = [2, 1, 0]" by code_simp
  show ?thesis using p l a b setLRU_touch [OF p l] by blast
qed

section \<open>Eviction and fill in closed form\<close>

lemma evicted_line_Some:
  assumes "recency_perm n st" "evicted_line st n = Some e"
  shows "e < unat n \<and> time (cacheLineArray st ! e) = n - 1 \<and>
         (\<forall>i<unat n. time (cacheLineArray st ! i) = n - 1 \<longrightarrow> i = e)"
proof -
  have n: "n \<noteq> 0"
  proof
    assume "n = 0"
    then have "evicted_line st n = None" by (simp add: evicted_line_def)
    with assms(2) show False by simp
  qed
  obtain v where v: "v < unat n" "time (cacheLineArray st ! v) = n - 1"
    "\<forall>i<unat n. time (cacheLineArray st ! i) = n - 1 \<longrightarrow> i = v"
    using perm_victim [OF assms(1) n] by blast
  have "evicted_line st n = Some v"
    unfolding evicted_line_def
    using victim_fold [of "unat n" "\<lambda>i. time (cacheLineArray st ! i) = n - 1" v None, OF v(3)]
      v(1,2) by simp
  with assms(2) have "v = e" by simp
  with v show ?thesis by blast
qed

lemma perm_evicted:
  assumes "recency_perm n st" "n \<noteq> 0"
  shows "\<exists>e. evicted_line st n = Some e"
proof -
  obtain v where v: "v < unat n" "time (cacheLineArray st ! v) = n - 1"
    "\<forall>i<unat n. time (cacheLineArray st ! i) = n - 1 \<longrightarrow> i = v"
    using perm_victim [OF assms] by blast
  have "evicted_line st n = Some v"
    unfolding evicted_line_def
    using victim_fold [of "unat n" "\<lambda>i. time (cacheLineArray st ! i) = n - 1" v None, OF v(3)]
      v(1,2) by simp
  then show ?thesis by blast
qed

lemma findEvict_installed:
  assumes "recency_perm n st" "evicted_line st n = Some e"
  shows "findEvict st tg n = Inr (e, installed n st e tg)"
  using findEvict_result [OF assms(1), of e tg] evicted_line_Some [OF assms]
  unfolding installed_def by blast

lemma installed_length [simp]:
  "length (cacheLineArray (installed n st e tg)) = length (cacheLineArray st)"
  by (simp add: installed_def)

lemma filled_length [simp]:
  "length (cacheLineArray (filled st e blk)) = length (cacheLineArray st)"
  by (simp add: filled_def)

lemma installed_nth:
  assumes "j < length (cacheLineArray st)"
  shows "cacheLineArray (installed n st e tg) ! j =
         (if j = e then (cacheLineArray st ! e)\<lparr>time := 0, valid := 1, tag := ucast tg\<rparr>
          else aged (n - 1) (cacheLineArray st ! j))"
  using assms by (simp add: installed_def nth_list_update)

lemma filled_nth:
  assumes "j < length (cacheLineArray st)"
  shows "cacheLineArray (filled st e blk) ! j =
         (if j = e then (cacheLineArray st ! e)\<lparr>cacheBlock := blk\<rparr> else cacheLineArray st ! j)"
  using assms by (simp add: filled_def nth_list_update)

lemma fill_line_filled:
  "fill_line m a st e =
     (fst (m a (cacheBlock (cacheLineArray st ! e)) 64),
      filled st e (snd (m a (cacheBlock (cacheLineArray st ! e)) 64)))"
  by (simp add: fill_line_eq filled_def)

lemma fetch_line_installed:
  assumes "recency_perm n st" "evicted_line st n = Some e"
  shows "fetch_line m st tg n ba vt skip k s =
     Inr (fst (m ba (cacheBlock (cacheLineArray st ! e)) 64),
          filled (installed n st e tg) e (snd (m ba (cacheBlock (cacheLineArray st ! e)) 64)),
          if fst (m ba (cacheBlock (cacheLineArray st ! e)) 64)
          then cache_get_byElem vt (drop skip (snd (m ba (cacheBlock (cacheLineArray st ! e)) 64))) k s
          else vt)"
proof -
  have e: "e < length (cacheLineArray st)"
    using evicted_line_Some [OF assms] perm_length [OF assms(1)] by simp
  have b: "cacheBlock (cacheLineArray (installed n st e tg) ! e) = cacheBlock (cacheLineArray st ! e)"
    using installed_nth [OF e, of n e tg] by simp
  have c: "cacheBlock (cacheLineArray (filled (installed n st e tg) e blk) ! e) = blk" for blk
    using filled_nth [of e "installed n st e tg" e blk] e by simp
  show ?thesis
    unfolding fetch_line_eq [OF findEvict_installed [OF assms]] fill_line_filled fst_conv snd_conv b c ..
qed

section \<open>The copies into the buffer\<close>

lemma byElem_fold_nth:
  "length (fold (\<lambda>i vt. vt[i + s := src ! i]) [0..<k] vt) = length vt \<and>
   (\<forall>j<length vt. fold (\<lambda>i vt. vt[i + s := src ! i]) [0..<k] vt ! j =
      (if s \<le> j \<and> j < s + k then src ! (j - s) else vt ! j))"
proof (induction k)
  case 0
  then show ?case by auto
next
  case (Suc k)
  let ?v = "fold (\<lambda>i vt. vt[i + s := src ! i]) [0..<k] vt"
  from Suc have len: "length ?v = length vt"
    and nth: "\<And>j. j < length vt \<Longrightarrow> ?v ! j = (if s \<le> j \<and> j < s + k then src ! (j - s) else vt ! j)"
    by simp_all
  have step: "fold (\<lambda>i vt. vt[i + s := src ! i]) [0..<Suc k] vt = ?v[k + s := src ! k]"
    by simp
  have "?v[k + s := src ! k] ! j = (if s \<le> j \<and> j < s + Suc k then src ! (j - s) else vt ! j)"
    if "j < length vt" for j
  proof (cases "j = k + s")
    case True
    then show ?thesis using len that by simp
  next
    case False
    then have "?v[k + s := src ! k] ! j = ?v ! j" by simp
    also have "\<dots> = (if s \<le> j \<and> j < s + k then src ! (j - s) else vt ! j)"
      using nth [OF that] .
    also have "\<dots> = (if s \<le> j \<and> j < s + Suc k then src ! (j - s) else vt ! j)"
      using False by (simp add: less_Suc_eq add.commute)
    finally show ?thesis .
  qed
  then show ?case unfolding step using len by simp
qed

lemma byElem_nth:
  assumes "j < length vt"
  shows "cache_get_byElem vt src k s ! j =
         (if unat s \<le> j \<and> j < unat s + unat k then src ! (j - unat s) else vt ! j)"
  unfolding cache_get_byElem_def using byElem_fold_nth [of "unat s" src "unat k" vt] assms by blast

lemma byElem_length [simp]: "length (cache_get_byElem vt src k s) = length vt"
  unfolding cache_get_byElem_def using byElem_fold_nth [of "unat s" src "unat k" vt] by blast

lemma byElem_whole:
  assumes "8 \<le> length src"
  shows "cache_get_byElem (replicate 8 0) src 8 0 = take 8 src"
proof (rule nth_equalityI)
  show "length (cache_get_byElem (replicate 8 0) src 8 0) = length (take 8 src)"
    using assms by simp
  fix j
  assume "j < length (cache_get_byElem (replicate 8 0) src 8 0)"
  then have j: "j < 8" by simp
  then have "j < length (replicate 8 (0 :: 8 word))" by simp
  from byElem_nth [OF this, of src 8 0] j
  show "cache_get_byElem (replicate 8 0) src 8 0 ! j = take 8 src ! j"
    by simp
qed

section \<open>One call inside a block, in closed form\<close>

lemma within_hit:
  assumes "length (cacheLineArray (cacheSetArray c)) = unat n"
    "hit_line (cacheSetArray c) tg n = Some i"
  shows "cache_get_within m n c a off tg =
     Inr \<lparr>ret = 1,
          value_out = Some (reverse_endian (cache_get_byElem (replicate 8 0)
             (drop (unat off) (cacheBlock (cacheLineArray (cacheSetArray c) ! i))) 8 0)),
          cache = c\<lparr>cacheSetArray := setLRU (cacheSetArray c) i n\<rparr>, reads = []\<rparr>"
proof -
  have i: "i < unat n" using hit_line_Some [OF assms(2)] by blast
  have "cacheBlock (cacheLineArray (setLRU (cacheSetArray c) i n) ! i) =
        cacheBlock (cacheLineArray (cacheSetArray c) ! i)"
    using setLRU_nth [OF assms(1) i i] by simp
  then show ?thesis
    unfolding cache_get_within_def Let_def scan_line_hit [OF assms(2)] by simp
qed

lemma within_miss:
  assumes "recency_perm n (cacheSetArray c)" "hit_line (cacheSetArray c) tg n = None"
    "evicted_line (cacheSetArray c) n = Some e"
  shows "cache_get_within m n c a off tg =
     Inr \<lparr>ret = (if fst (m (a - off) (cacheBlock (cacheLineArray (cacheSetArray c) ! e)) 64) then 1 else 0),
          value_out =
            (if fst (m (a - off) (cacheBlock (cacheLineArray (cacheSetArray c) ! e)) 64)
             then Some (reverse_endian (cache_get_byElem (replicate 8 0)
                    (drop (unat off) (snd (m (a - off) (cacheBlock (cacheLineArray (cacheSetArray c) ! e)) 64))) 8 0))
             else None),
          cache = c\<lparr>cacheSetArray := filled (installed n (cacheSetArray c) e tg) e
                    (snd (m (a - off) (cacheBlock (cacheLineArray (cacheSetArray c) ! e)) 64))\<rparr>,
          reads = [a - off]\<rparr>"
  unfolding cache_get_within_def Let_def scan_line_miss [OF assms(2)] prod.case
    fetch_line_installed [OF assms(1,3)]
  by simp

section \<open>A hit changes times only\<close>

lemma setLRU_frame:
  assumes "length (cacheLineArray st) = unat n" "l < unat n"
  shows "map valid (cacheLineArray (setLRU st l n)) = map valid (cacheLineArray st)"
    and "map tag (cacheLineArray (setLRU st l n)) = map tag (cacheLineArray st)"
    and "map cacheBlock (cacheLineArray (setLRU st l n)) = map cacheBlock (cacheLineArray st)"
proof -
  note len = setLRU_length [OF assms]
  have nth: "valid (cacheLineArray (setLRU st l n) ! j) = valid (cacheLineArray st ! j) \<and>
             tag (cacheLineArray (setLRU st l n) ! j) = tag (cacheLineArray st ! j) \<and>
             cacheBlock (cacheLineArray (setLRU st l n) ! j) = cacheBlock (cacheLineArray st ! j)"
    if "j < unat n" for j
    using setLRU_nth [OF assms that] by simp
  show "map valid (cacheLineArray (setLRU st l n)) = map valid (cacheLineArray st)"
    by (rule nth_equalityI) (use len assms(1) nth in simp_all)
  show "map tag (cacheLineArray (setLRU st l n)) = map tag (cacheLineArray st)"
    by (rule nth_equalityI) (use len assms(1) nth in simp_all)
  show "map cacheBlock (cacheLineArray (setLRU st l n)) = map cacheBlock (cacheLineArray st)"
    by (rule nth_equalityI) (use len assms(1) nth in simp_all)
qed

text \<open>
  C9. On an initialised cache, a request that lies inside one block
  (\<open>offset + 8 <= 64\<close>) and finds a valid line with its tag returns 1, leaves the valid
  flag, the tag and the block bytes of every line as they were (only times change) and
  does not call \<open>memget\<close>.
\<close>

theorem hit_changes_times_only:
  assumes "initialized c \<noteq> 0"
    and "length (cacheLineArray (cacheSetArray c)) = unat n"
    and "fst (address_decomposer a) + 8 \<le> 64"
    and "i < unat n"
    and "valid (cacheLineArray (cacheSetArray c) ! i) \<noteq> 0"
    and "ucast (tag (cacheLineArray (cacheSetArray c) ! i)) = snd (address_decomposer a)"
  shows "\<exists>r. cache_get m n c a = Inr r \<and> ret r = 1 \<and> reads r = [] \<and>
           initialized (cache r) = initialized c \<and>
           map valid (cacheLineArray (cacheSetArray (cache r))) =
             map valid (cacheLineArray (cacheSetArray c)) \<and>
           map tag (cacheLineArray (cacheSetArray (cache r))) =
             map tag (cacheLineArray (cacheSetArray c)) \<and>
           map cacheBlock (cacheLineArray (cacheSetArray (cache r))) =
             map cacheBlock (cacheLineArray (cacheSetArray c))"
proof -
  let ?st = "cacheSetArray c"
  let ?off = "take_bit 6 a" and ?tg = "drop_bit 6 a"
  have tg: "ucast (tag (cacheLineArray ?st ! i)) = ?tg"
    using assms(6) by (simp add: address_decomposer_eq)
  have "hit_line ?st ?tg n \<noteq> None"
    unfolding hit_line_None using assms(4,5) tg by blast
  then obtain k where k: "hit_line ?st ?tg n = Some k" by blast
  then have kn: "k < unat n" using hit_line_Some by blast
  have w: "take_bit 6 a + 8 \<le> 64"
    using assms(3) by (simp add: address_decomposer_eq)
  have "cache_get m n c a = cache_get_within m n c a ?off ?tg"
    using cache_get_initialised [OF assms(1)] w by simp
  then have "cache_get m n c a =
     Inr \<lparr>ret = 1,
          value_out = Some (reverse_endian (cache_get_byElem (replicate 8 0)
             (drop (unat ?off) (cacheBlock (cacheLineArray ?st ! k))) 8 0)),
          cache = c\<lparr>cacheSetArray := setLRU ?st k n\<rparr>, reads = []\<rparr>"
    using within_hit [OF assms(2) k] by simp
  then show ?thesis
    using setLRU_frame [OF assms(2) kn] by simp
qed

theorem hit_changes_times_only_witness:
  "initialized (cache (projr (cache_get backing 2 arena2 8))) \<noteq> 0 \<and>
   length (cacheLineArray (cacheSetArray (cache (projr (cache_get backing 2 arena2 8))))) = unat (2 :: 32 word) \<and>
   fst (address_decomposer 16) + 8 \<le> 64 \<and>
   (1 :: nat) < unat (2 :: 32 word) \<and>
   valid (cacheLineArray (cacheSetArray (cache (projr (cache_get backing 2 arena2 8)))) ! 1) \<noteq> 0 \<and>
   ucast (tag (cacheLineArray (cacheSetArray (cache (projr (cache_get backing 2 arena2 8)))) ! 1)) =
     snd (address_decomposer 16) \<and>
   (\<exists>r. cache_get failing 2 (cache (projr (cache_get backing 2 arena2 8))) 16 = Inr r \<and>
        ret r = 1 \<and> reads r = [])"
proof -
  let ?c = "cache (projr (cache_get backing 2 arena2 8))"
  have 1: "initialized ?c \<noteq> 0" by code_simp
  have 2: "length (cacheLineArray (cacheSetArray ?c)) = unat (2 :: 32 word)" by code_simp
  have 3: "fst (address_decomposer 16) + 8 \<le> 64" by code_simp
  have 4: "(1 :: nat) < unat (2 :: 32 word)" by simp
  have 5: "valid (cacheLineArray (cacheSetArray ?c) ! 1) \<noteq> 0" by code_simp
  have 6: "ucast (tag (cacheLineArray (cacheSetArray ?c) ! 1)) = snd (address_decomposer 16)"
    by code_simp
  show ?thesis
    using 1 2 3 4 5 6 hit_changes_times_only [OF 1 2 3 4 5 6, of failing] by blast
qed

section \<open>The narrow tag field\<close>

lemma tag_fits: "tg < 2 ^ 32 \<Longrightarrow> ucast (ucast tg :: 32 word) = tg" for tg :: "64 word"
  by (simp add: word_unat_eq_iff unsigned_ucast_eq take_bit_eq_mod word_less_nat_alt unat_mod)

lemma stored_tag_small: "ucast (x :: 32 word) < (2 ^ 32 :: 64 word)"
  using unsigned_less [of x, where 'a = nat]
  by (simp add: word_less_nat_alt unsigned_ucast_eq take_bit_eq_mod unat_mod)

lemma stored_tag_back: "ucast (ucast (x :: 32 word) :: 64 word) = x"
  by (simp add: word_unat_eq_iff unsigned_ucast_eq take_bit_eq_mod unat_mod)

lemma wide_tag_never_hits:
  assumes "\<not> tg < 2 ^ 32"
  shows "hit_line st tg n = None"
proof -
  have "ucast (tag (cacheLineArray st ! i)) \<noteq> tg" for i
    using stored_tag_small [of "tag (cacheLineArray st ! i)"] assms by auto
  then show ?thesis unfolding hit_line_None by blast
qed

lemma within_offset:
  assumes "take_bit 6 a + 8 \<le> (64 :: 64 word)"
  shows "unat (take_bit 6 a) + 8 \<le> 64"
proof -
  have l: "unat (take_bit 6 a) < 64"
    using offset_less [of a] by (simp add: word_less_nat_alt)
  then have "unat (take_bit 6 a + 8) = unat (take_bit 6 a) + 8"
    by (simp add: unat_word_ariths)
  then show ?thesis using assms by (simp add: word_le_nat_alt)
qed

lemma word_in_block:
  assumes "take_bit 6 a + 8 \<le> (64 :: 64 word)" "length blk = 64"
  shows "cache_get_byElem (replicate 8 0) (drop (unat (take_bit 6 a)) blk) 8 0 =
         take 8 (drop (unat (take_bit 6 a)) blk)"
  using within_offset [OF assms(1)] assms(2) by (intro byElem_whole) simp

section \<open>The set after an eviction and a fill\<close>

lemma installed_filled_nth:
  assumes "j < length (cacheLineArray st)"
  shows "cacheLineArray (filled (installed n st e tg) e blk) ! j =
         (if j = e
          then (cacheLineArray st ! e)\<lparr>time := 0, valid := 1, tag := ucast tg, cacheBlock := blk\<rparr>
          else aged (n - 1) (cacheLineArray st ! j))"
proof -
  have "j < length (cacheLineArray (installed n st e tg))" using assms by simp
  then show ?thesis
    using filled_nth [of j "installed n st e tg" e blk] installed_nth [OF assms, of n e tg]
      installed_nth [of e st n e tg] assms by auto
qed

lemma installed_perm:
  assumes "recency_perm n st" "evicted_line st n = Some e"
  shows "recency_perm n (installed n st e tg)"
  using findEvict_perm [OF assms(1) findEvict_installed [OF assms]] .

lemma filled_perm:
  assumes "recency_perm n st"
  shows "recency_perm n (filled st e blk)"
proof -
  have "snd (fill_line (\<lambda>a b l. (True, blk)) 0 st e) = filled st e blk"
    by (simp add: fill_line_filled)
  then show ?thesis using fill_line_perm [OF assms, of "\<lambda>a b l. (True, blk)" 0 e] by simp
qed

lemma hit_after_install:
  assumes "recency_perm n st" "evicted_line st n = Some e"
    and "\<forall>j<e. \<not> (valid (cacheLineArray st ! j) \<noteq> 0 \<and> ucast (tag (cacheLineArray st ! j)) = tb)"
    and "ucast (ucast tg :: 32 word) = tb"
  shows "hit_line (filled (installed n st e tg) e blk) tb n = Some e"
proof (rule hit_line_first)
  note len = perm_length [OF assms(1)]
  note ev = evicted_line_Some [OF assms(1,2)]
  let ?L' = "cacheLineArray (filled (installed n st e tg) e blk)"
  show "e < unat n" using ev by blast
  then have e: "e < length (cacheLineArray st)" using len by simp
  show "valid (?L' ! e) \<noteq> 0"
    using installed_filled_nth [OF e, of n e tg blk] by simp
  show "ucast (tag (?L' ! e)) = tb"
    using installed_filled_nth [OF e, of n e tg blk] assms(4) by simp
  show "\<forall>j<e. \<not> (valid (?L' ! j) \<noteq> 0 \<and> ucast (tag (?L' ! j)) = tb)"
  proof (intro allI impI)
    fix j assume j: "j < e"
    then have "j < length (cacheLineArray st)" using e by simp
    from installed_filled_nth [OF this, of n e tg blk] j
    have "valid (?L' ! j) = valid (cacheLineArray st ! j)" "tag (?L' ! j) = tag (cacheLineArray st ! j)"
      by simp_all
    then show "\<not> (valid (?L' ! j) \<noteq> 0 \<and> ucast (tag (?L' ! j)) = tb)"
      using assms(3) j by simp
  qed
qed

section \<open>A failed fill\<close>

text \<open>
  What the code does when the read of the backing memory fails (leaving 64 bytes of
  whatever in the buffer) on a miss of a request inside one block: \<open>cache_get\<close> returns
  0, and the evicted line keeps what \<open>findEvict\<close> wrote before the read: valid is 1, its
  time is 0, the recency invariant holds, and its tag field holds the low 32 bits of the
  requested tag. When the requested tag is below \<open>2^32\<close> that is the requested tag, and
  a later request inside a block with that tag is a hit: it returns 1 with the bytes the
  failed read left in the block, and reads nothing from the backing memory.
\<close>

lemma failed_fill_keeps_line:
  assumes "initialized c \<noteq> 0" and "recency_perm n (cacheSetArray c)" and "n \<noteq> 0"
    and "fst (address_decomposer a) + 8 \<le> 64"
    and "hit_line (cacheSetArray c) (snd (address_decomposer a)) n = None"
    and "\<forall>i<unat n.
           \<not> fst (m (a - fst (address_decomposer a))
                    (cacheBlock (cacheLineArray (cacheSetArray c) ! i)) 64) \<and>
           length (snd (m (a - fst (address_decomposer a))
                    (cacheBlock (cacheLineArray (cacheSetArray c) ! i)) 64)) = 64"
  shows "\<exists>r e. cache_get m n c a = Inr r \<and> ret r = 0 \<and> value_out r = None \<and>
           reads r = [a - fst (address_decomposer a)] \<and>
           evicted_line (cacheSetArray c) n = Some e \<and> e < unat n \<and>
           tag (cacheLineArray (cacheSetArray (cache r)) ! e) = ucast (snd (address_decomposer a)) \<and>
           valid (cacheLineArray (cacheSetArray (cache r)) ! e) = 1 \<and>
           time (cacheLineArray (cacheSetArray (cache r)) ! e) = 0 \<and>
           recency_perm n (cacheSetArray (cache r)) \<and>
           (snd (address_decomposer a) < 2 ^ 32 \<longrightarrow>
              (\<forall>m' a'. snd (address_decomposer a') = snd (address_decomposer a) \<and>
                  fst (address_decomposer a') + 8 \<le> 64 \<longrightarrow>
                  cache_get m' n (cache r) a' =
                    Inr \<lparr>ret = 1,
                         value_out = Some (reverse_endian (take 8 (drop (unat (fst (address_decomposer a')))
                           (cacheBlock (cacheLineArray (cacheSetArray (cache r)) ! e))))),
                         cache = (cache r)\<lparr>cacheSetArray := setLRU (cacheSetArray (cache r)) e n\<rparr>,
                         reads = []\<rparr>))"
proof -
  let ?st = "cacheSetArray c"
  let ?off = "take_bit 6 a" and ?tg = "drop_bit 6 a"
  note ad = address_decomposer_eq fst_conv snd_conv
  have w: "?off + 8 \<le> 64" using assms(4) unfolding ad .
  have miss: "hit_line ?st ?tg n = None" using assms(5) unfolding ad .
  obtain e where e: "evicted_line ?st n = Some e"
    using perm_evicted [OF assms(2,3)] by blast
  note ev = evicted_line_Some [OF assms(2) e]
  note len = perm_length [OF assms(2)]
  have el: "e < length (cacheLineArray ?st)" using ev len by simp
  let ?res = "m (a - ?off) (cacheBlock (cacheLineArray ?st ! e)) 64"
  let ?blk = "snd ?res"
  let ?st' = "filled (installed n ?st e ?tg) e ?blk"
  have fail: "\<not> fst ?res" and blen: "length ?blk = 64"
    using assms(6) ev unfolding ad by blast+
  define r where "r = \<lparr>ret = 0, value_out = None, cache = c\<lparr>cacheSetArray := ?st'\<rparr>,
                         reads = [a - ?off]\<rparr>"
  have g: "cache_get m n c a = Inr r"
    unfolding cache_get_initialised [OF assms(1)] r_def
    using w within_miss [OF assms(2) miss e, of m a ?off] fail by simp
  have st': "cacheSetArray (cache r) = ?st'" by (simp add: r_def)
  have line: "cacheLineArray ?st' ! e =
      (cacheLineArray ?st ! e)\<lparr>time := 0, valid := 1, tag := ucast ?tg, cacheBlock := ?blk\<rparr>"
    using installed_filled_nth [OF el, of n e ?tg ?blk] by simp
  have perm': "recency_perm n ?st'"
    using filled_perm [OF installed_perm [OF assms(2) e]] .
  have again: "cache_get m' n (cache r) a' =
      Inr \<lparr>ret = 1,
           value_out = Some (reverse_endian (take 8 (drop (unat (take_bit 6 a'))
                         (cacheBlock (cacheLineArray ?st' ! e))))),
           cache = (cache r)\<lparr>cacheSetArray := setLRU ?st' e n\<rparr>, reads = []\<rparr>"
    if small: "?tg < 2 ^ 32" and same: "drop_bit 6 a' = ?tg" and w': "take_bit 6 a' + 8 \<le> 64"
    for m' a'
  proof -
    have i: "initialized (cache r) \<noteq> 0" using assms(1) by (simp add: r_def)
    have before: "\<forall>j<e. \<not> (valid (cacheLineArray ?st ! j) \<noteq> 0 \<and>
                    ucast (tag (cacheLineArray ?st ! j)) = ?tg)"
      using miss ev unfolding hit_line_None by simp
    have h: "hit_line (cacheSetArray (cache r)) (drop_bit 6 a') n = Some e"
      unfolding st' same
      using hit_after_install [OF assms(2) e before tag_fits [OF small]] .
    have l: "length (cacheLineArray (cacheSetArray (cache r))) = unat n"
      unfolding st' using len by simp
    have b: "length (cacheBlock (cacheLineArray ?st' ! e)) = 64"
      using line blen by simp
    show ?thesis
      unfolding cache_get_initialised [OF i]
      using w' within_hit [OF l h, of m' a' "take_bit 6 a'"] word_in_block [OF w' b]
      by (simp add: st')
  qed
  show ?thesis
    apply (rule exI [of _ r], rule exI [of _ e])
    unfolding ad st'
    using g e ev line perm' again
    by (simp add: r_def)
qed

lemma failed_fill_keeps_line_example:
  "initialized (init 2 arena2) \<noteq> 0 \<and> recency_perm 2 (cacheSetArray (init 2 arena2)) \<and>
   fst (address_decomposer 8) + 8 \<le> 64 \<and>
   hit_line (cacheSetArray (init 2 arena2)) (snd (address_decomposer 8)) 2 = None \<and>
   snd (address_decomposer 8) < 2 ^ 32 \<and>
   (\<exists>r. cache_get failing 2 (init 2 arena2) 8 = Inr r \<and> ret r = 0 \<and> value_out r = None \<and>
      evicted_line (cacheSetArray (init 2 arena2)) 2 = Some 1 \<and>
      tag (cacheLineArray (cacheSetArray (cache r)) ! 1) = 0 \<and>
      valid (cacheLineArray (cacheSetArray (cache r)) ! 1) = 1 \<and>
      time (cacheLineArray (cacheSetArray (cache r)) ! 1) = 0 \<and>
      map_sum id ret (cache_get backing 2 (cache r) 16) = Inr 1 \<and>
      map_sum id reads (cache_get backing 2 (cache r) 16) = Inr [])"
proof -
  let ?c = "init 2 arena2"
  have 1: "initialized ?c \<noteq> 0" by code_simp
  have 2: "recency_perm 2 (cacheSetArray ?c)" unfolding recency_perm_def by code_simp
  have 3: "(2 :: 32 word) \<noteq> 0" by simp
  have 4: "fst (address_decomposer 8) + 8 \<le> 64" by code_simp
  have 5: "hit_line (cacheSetArray ?c) (snd (address_decomposer 8)) 2 = None" by code_simp
  have b: "length (cacheBlock (cacheLineArray (cacheSetArray ?c) ! i)) = 64" if "i < 2" for i
  proof -
    from that have "i = 0 \<or> i = 1" by auto
    then show ?thesis by (elim disjE) (simp, code_simp, simp, code_simp)
  qed
  have 6: "\<forall>i<unat (2 :: 32 word).
      \<not> fst (failing (8 - fst (address_decomposer 8))
               (cacheBlock (cacheLineArray (cacheSetArray ?c) ! i)) 64) \<and>
      length (snd (failing (8 - fst (address_decomposer 8))
               (cacheBlock (cacheLineArray (cacheSetArray ?c) ! i)) 64)) = 64"
    using b by (simp add: failing_def)
  have s: "snd (address_decomposer 8) < 2 ^ 32" by code_simp
  have t: "(ucast (snd (address_decomposer 8)) :: 32 word) = 0" by code_simp
  have e: "evicted_line (cacheSetArray ?c) 2 = Some 1" by code_simp
  have a: "snd (address_decomposer 16) = snd (address_decomposer 8) \<and>
           fst (address_decomposer 16) + 8 \<le> 64" by code_simp
  from failed_fill_keeps_line [where c = ?c and n = 2 and a = 8 and m = failing, OF 1 2 3 4 5 6]
  obtain r e' where r:
    "cache_get failing 2 ?c 8 = Inr r" "ret r = 0" "value_out r = None"
    "evicted_line (cacheSetArray ?c) 2 = Some e'"
    "tag (cacheLineArray (cacheSetArray (cache r)) ! e') = ucast (snd (address_decomposer 8))"
    "valid (cacheLineArray (cacheSetArray (cache r)) ! e') = 1"
    "time (cacheLineArray (cacheSetArray (cache r)) ! e') = 0"
    and again: "snd (address_decomposer 8) < 2 ^ 32 \<longrightarrow>
      (\<forall>m' a'. snd (address_decomposer a') = snd (address_decomposer 8) \<and>
          fst (address_decomposer a') + 8 \<le> 64 \<longrightarrow>
          cache_get m' 2 (cache r) a' =
            Inr \<lparr>ret = 1,
                 value_out = Some (reverse_endian (take 8 (drop (unat (fst (address_decomposer a')))
                   (cacheBlock (cacheLineArray (cacheSetArray (cache r)) ! e'))))),
                 cache = (cache r)\<lparr>cacheSetArray := setLRU (cacheSetArray (cache r)) e' 2\<rparr>,
                 reads = []\<rparr>)"
    by blast
  have e': "e' = 1" using r(4) e by simp
  have "map_sum id ret (cache_get backing 2 (cache r) 16) = Inr 1 \<and>
        map_sum id reads (cache_get backing 2 (cache r) 16) = Inr []"
    using again s a by simp
  then show ?thesis
    using 1 2 4 5 s r e t unfolding e' by auto
qed

text \<open>
  C5. After a failed fill on a miss inside a block the evicted line should carry the
  requested tag, so that the next request for that tag hits. At the address \<open>2^38\<close>,
  whose tag is \<open>2^32\<close>, on two fresh lines with a backing memory whose reads fail:
  \<open>cache_get\<close> returns 0 and line 1 is the evicted line, but the assignment
  \<open>evictedLine->tag = tag\<close> of \<open>findEvict\<close> (line 123) narrows the unsigned long tag to
  the unsigned int field, which then holds 0, not the requested tag; the next request for
  the same address does not hit and reads the backing memory again.
\<close>

theorem failed_fill_stores_narrowed_tag:
  "fst (address_decomposer wide_address) + 8 \<le> 64 \<and>
   evicted_line (cacheSetArray (init 2 arena2)) 2 = Some 1 \<and>
   map_sum id ret (cache_get failing 2 arena2 wide_address) = Inr 0 \<and>
   map_sum id reads (cache_get failing 2 arena2 wide_address) = Inr [wide_address] \<and>
   snd (address_decomposer wide_address) = 2 ^ 32 \<and>
   map tag (cacheLineArray (cacheSetArray (cache (projr (cache_get failing 2 arena2 wide_address))))) =
     [0, 0] \<and>
   map valid (cacheLineArray (cacheSetArray (cache (projr (cache_get failing 2 arena2 wide_address))))) =
     [0, 1] \<and>
   map time (cacheLineArray (cacheSetArray (cache (projr (cache_get failing 2 arena2 wide_address))))) =
     [1, 0] \<and>
   hit_line (cacheSetArray (cache (projr (cache_get failing 2 arena2 wide_address))))
     (snd (address_decomposer wide_address)) 2 = None \<and>
   map_sum id reads
     (cache_get failing 2 (cache (projr (cache_get failing 2 arena2 wide_address))) wide_address) =
     Inr [wide_address]"
  by code_simp

section \<open>Miss, then hit\<close>

lemma init_no_hit:
  assumes "length (cacheLineArray (cacheSetArray c)) = unat n"
  shows "hit_line (cacheSetArray (init n c)) tg n = None"
proof -
  have "valid (cacheLineArray (cacheSetArray (init n c)) ! i) = 0" if "i < unat n" for i
    unfolding init_lines [OF assms] using that by simp
  then show ?thesis unfolding hit_line_None by blast
qed

lemma get_installed_line:
  assumes "initialized c \<noteq> 0" and "recency_perm n st" and "evicted_line st n = Some e"
    and "cacheSetArray c = filled (installed n st e tg) e blk"
    and "\<forall>j<e. \<not> (valid (cacheLineArray st ! j) \<noteq> 0 \<and> ucast (tag (cacheLineArray st ! j)) = drop_bit 6 a')"
    and "ucast (ucast tg :: 32 word) = drop_bit 6 a'"
    and "take_bit 6 a' + 8 \<le> 64" and "length blk = 64"
  shows "cache_get m' n c a' =
      Inr \<lparr>ret = 1,
           value_out = Some (reverse_endian (take 8 (drop (unat (take_bit 6 a')) blk))),
           cache = c\<lparr>cacheSetArray := setLRU (cacheSetArray c) e n\<rparr>, reads = []\<rparr>"
proof -
  note len = perm_length [OF assms(2)]
  have el: "e < length (cacheLineArray st)"
    using evicted_line_Some [OF assms(2,3)] len by simp
  have h: "hit_line (cacheSetArray c) (drop_bit 6 a') n = Some e"
    unfolding assms(4) using hit_after_install [OF assms(2,3,5,6)] .
  have l: "length (cacheLineArray (cacheSetArray c)) = unat n"
    unfolding assms(4) using len by simp
  have b: "cacheBlock (cacheLineArray (cacheSetArray c) ! e) = blk"
    unfolding assms(4) using installed_filled_nth [OF el, of n e tg blk] by simp
  show ?thesis
    unfolding cache_get_initialised [OF assms(1)]
    using assms(7) within_hit [OF l h, of m' a' "take_bit 6 a'"] word_in_block [OF assms(7,8)]
    by (simp add: b)
qed

text \<open>
  The round trip where the code makes it: for every address \<open>A\<close> whose word lies inside
  one block and whose tag is below \<open>2^32\<close>, on a fast memory not yet initialised that
  holds at least one line:
  when the backing memory delivers the block \<open>blk\<close> for \<open>A\<close>, the first \<open>cache_get\<close>
  returns 1 with the value decoded from the 8 bytes of \<open>blk\<close> at the offset of \<open>A\<close>,
  after one read of the backing memory (the miss path), and a second \<open>cache_get\<close> of \<open>A\<close>
  returns 1 with the same value and no read (the hit path).
\<close>

lemma round_trip:
  assumes "initialized c = 0" and "length (cacheLineArray (cacheSetArray c)) = unat n"
    and "n \<noteq> 0"
    and "fst (address_decomposer a) + 8 \<le> 64"
    and "snd (address_decomposer a) < 2 ^ 32"
    and "\<forall>buf. m (a - fst (address_decomposer a)) buf 64 = (True, blk)"
    and "length blk = 64"
  shows "\<exists>r1 r2.
           cache_get m n c a = Inr r1 \<and> ret r1 = 1 \<and>
           value_out r1 = Some (reverse_endian (take 8 (drop (unat (fst (address_decomposer a))) blk))) \<and>
           reads r1 = [a - fst (address_decomposer a)] \<and>
           cache_get m' n (cache r1) a = Inr r2 \<and> ret r2 = 1 \<and>
           value_out r2 = Some (reverse_endian (take 8 (drop (unat (fst (address_decomposer a))) blk))) \<and>
           reads r2 = []"
proof -
  let ?c = "init n c"
  let ?st = "cacheSetArray ?c"
  let ?off = "take_bit 6 a" and ?tg = "drop_bit 6 a"
  note ad = address_decomposer_eq fst_conv snd_conv
  have w: "?off + 8 \<le> 64" using assms(4) unfolding ad .
  have small: "?tg < 2 ^ 32" using assms(5) unfolding ad .
  have mem: "m (a - ?off) buf 64 = (True, blk)" for buf using assms(6) unfolding ad by blast
  have i: "initialized ?c \<noteq> 0" by (simp add: init_initialized)
  have perm: "recency_perm n ?st" using init_perm [OF assms(2)] .
  have miss: "hit_line ?st ?tg n = None" using init_no_hit [OF assms(2)] .
  obtain e where e: "evicted_line ?st n = Some e"
    using perm_evicted [OF perm assms(3)] by blast
  let ?V = "reverse_endian (take 8 (drop (unat ?off) blk))"
  define r1 where "r1 = \<lparr>ret = 1, value_out = Some ?V,
      cache = ?c\<lparr>cacheSetArray := filled (installed n ?st e ?tg) e blk\<rparr>, reads = [a - ?off]\<rparr>"
  have g1: "cache_get m n c a = Inr r1"
    unfolding cache_get_fresh [OF assms(1)] cache_get_initialised [OF i] r1_def
    using w within_miss [OF perm miss e, of m a ?off] word_in_block [OF w assms(7)]
    by (simp add: mem)
  have i1: "initialized (cache r1) \<noteq> 0" using i by (simp add: r1_def)
  have s1: "cacheSetArray (cache r1) = filled (installed n ?st e ?tg) e blk" by (simp add: r1_def)
  have before: "\<forall>j<e. \<not> (valid (cacheLineArray ?st ! j) \<noteq> 0 \<and>
                  ucast (tag (cacheLineArray ?st ! j)) = ?tg)"
    using miss evicted_line_Some [OF perm e] unfolding hit_line_None by simp
  note g2 = get_installed_line [OF i1 perm e s1 before tag_fits [OF small] w assms(7), of m']
  show ?thesis
    unfolding ad
    apply (rule exI [of _ r1])
    apply (rule exI [of _ "\<lparr>ret = 1, value_out = Some ?V,
             cache = (cache r1)\<lparr>cacheSetArray := setLRU (cacheSetArray (cache r1)) e n\<rparr>,
             reads = []\<rparr>"])
    using g1 g2 by (simp add: r1_def)
qed


lemma round_trip_example:
  "initialized arena2 = 0 \<and>
   length (cacheLineArray (cacheSetArray arena2)) = unat (2 :: 32 word) \<and>
   fst (address_decomposer 8) + 8 \<le> 64 \<and>
   snd (address_decomposer 8) < 2 ^ 32 \<and>
   (\<exists>r1 r2. cache_get backing 2 arena2 8 = Inr r1 \<and> ret r1 = 1 \<and>
      value_out r1 = Some 0x0F0E0D0C0B0A0908 \<and> reads r1 = [0] \<and>
      cache_get failing 2 (cache r1) 8 = Inr r2 \<and> ret r2 = 1 \<and>
      value_out r2 = Some 0x0F0E0D0C0B0A0908 \<and> reads r2 = [])"
proof -
  have 1: "initialized arena2 = 0" by (simp add: arena2_def)
  have 2: "length (cacheLineArray (cacheSetArray arena2)) = unat (2 :: 32 word)"
    by (simp add: arena2_def)
  have 3: "(2 :: 32 word) \<noteq> 0" by simp
  have 4: "fst (address_decomposer 8) + 8 \<le> 64" by code_simp
  have 5: "snd (address_decomposer 8) < 2 ^ 32" by code_simp
  have 6: "\<forall>buf. backing (8 - fst (address_decomposer 8)) buf 64 = (True, map of_nat [0..<64])"
  proof -
    have "8 - fst (address_decomposer 8) = (0 :: 64 word)" by code_simp
    then show ?thesis by (simp add: backing_def)
  qed
  have 7: "length (map of_nat [0..<64] :: 8 word list) = 64" by simp
  have v: "reverse_endian (take 8 (drop (unat (fst (address_decomposer 8))) (map of_nat [0..<64]))) =
           0x0F0E0D0C0B0A0908"
    by code_simp
  have rd: "8 - fst (address_decomposer 8) = (0 :: 64 word)" by code_simp
  from round_trip [where c = arena2 and n = 2 and a = 8 and m = backing
        and blk = "map of_nat [0..<64]" and m' = failing, OF 1 2 3 4 5 6 7]
  obtain r1 r2 where r:
    "cache_get backing 2 arena2 8 = Inr r1" "ret r1 = 1"
    "value_out r1 = Some (reverse_endian (take 8 (drop (unat (fst (address_decomposer 8))) (map of_nat [0..<64]))))"
    "reads r1 = [8 - fst (address_decomposer 8)]"
    "cache_get failing 2 (cache r1) 8 = Inr r2" "ret r2 = 1"
    "value_out r2 = Some (reverse_endian (take 8 (drop (unat (fst (address_decomposer 8))) (map of_nat [0..<64]))))"
    "reads r2 = []"
    by blast
  show ?thesis
    using 1 2 4 5 r [unfolded v rd] by blast
qed

text \<open>
  For a tag of \<open>2^32\<close> or more the values still agree, but the second call misses again:
  both calls read the backing memory.
\<close>

lemma round_trip_wide:
  assumes "initialized c = 0" and "length (cacheLineArray (cacheSetArray c)) = unat n"
    and "n \<noteq> 0"
    and "fst (address_decomposer a) + 8 \<le> 64"
    and "\<not> snd (address_decomposer a) < 2 ^ 32"
    and "\<forall>buf. m (a - fst (address_decomposer a)) buf 64 = (True, blk)"
    and "length blk = 64"
  shows "\<exists>r1 r2.
           cache_get m n c a = Inr r1 \<and> ret r1 = 1 \<and>
           value_out r1 = Some (reverse_endian (take 8 (drop (unat (fst (address_decomposer a))) blk))) \<and>
           reads r1 = [a - fst (address_decomposer a)] \<and>
           cache_get m n (cache r1) a = Inr r2 \<and> ret r2 = 1 \<and>
           value_out r2 = Some (reverse_endian (take 8 (drop (unat (fst (address_decomposer a))) blk))) \<and>
           reads r2 = [a - fst (address_decomposer a)]"
proof -
  let ?c = "init n c"
  let ?st = "cacheSetArray ?c"
  let ?off = "take_bit 6 a" and ?tg = "drop_bit 6 a"
  note ad = address_decomposer_eq fst_conv snd_conv
  have w: "?off + 8 \<le> 64" using assms(4) unfolding ad .
  have wide: "\<not> ?tg < 2 ^ 32" using assms(5) unfolding ad .
  have mem: "m (a - ?off) buf 64 = (True, blk)" for buf using assms(6) unfolding ad by blast
  have i: "initialized ?c \<noteq> 0" by (simp add: init_initialized)
  have perm: "recency_perm n ?st" using init_perm [OF assms(2)] .
  have miss: "hit_line st ?tg n = None" for st using wide_tag_never_hits [OF wide] .
  obtain e where e: "evicted_line ?st n = Some e"
    using perm_evicted [OF perm assms(3)] by blast
  let ?V = "reverse_endian (take 8 (drop (unat ?off) blk))"
  let ?st1 = "filled (installed n ?st e ?tg) e blk"
  define r1 where "r1 = \<lparr>ret = 1, value_out = Some ?V,
      cache = ?c\<lparr>cacheSetArray := ?st1\<rparr>, reads = [a - ?off]\<rparr>"
  have g1: "cache_get m n c a = Inr r1"
    unfolding cache_get_fresh [OF assms(1)] cache_get_initialised [OF i] r1_def
    using w within_miss [OF perm miss e, of m a ?off] word_in_block [OF w assms(7)]
    by (simp add: mem)
  have i1: "initialized (cache r1) \<noteq> 0" using i by (simp add: r1_def)
  have s1: "cacheSetArray (cache r1) = ?st1" by (simp add: r1_def)
  have perm1: "recency_perm n (cacheSetArray (cache r1))"
    unfolding s1 using filled_perm [OF installed_perm [OF perm e]] .
  obtain e2 where e2: "evicted_line (cacheSetArray (cache r1)) n = Some e2"
    using perm_evicted [OF perm1 assms(3)] by blast
  define r2 where "r2 = \<lparr>ret = 1, value_out = Some ?V,
      cache = (cache r1)\<lparr>cacheSetArray := filled (installed n (cacheSetArray (cache r1)) e2 ?tg) e2 blk\<rparr>,
      reads = [a - ?off]\<rparr>"
  have g2: "cache_get m n (cache r1) a = Inr r2"
    unfolding cache_get_initialised [OF i1] r2_def
    using w within_miss [OF perm1 miss e2, of m a ?off] word_in_block [OF w assms(7)]
    by (simp add: mem)
  show ?thesis
    unfolding ad
    apply (rule exI [of _ r1], rule exI [of _ r2])
    using g1 g2 by (simp add: r1_def r2_def)
qed

text \<open>
  C2. A repeated \<open>cache_get\<close> of an address should be served by the hit path, with the
  value of the first call. At the address \<open>2^38\<close> (offset 0, tag \<open>2^32\<close>) on two fresh
  lines: the first call returns 1 with the value of the backing memory after one read
  and leaves the tag field of the evicted line at 0, because \<open>findEvict\<close> narrows the tag
  to 32 bits (line 123); the repeated call returns 1 with the same value, but it finds
  no line with the tag \<open>2^32\<close> and reads the backing memory again: the miss path, not the
  hit path.
\<close>

theorem round_trip_rereads_wide_tag:
  "fst (address_decomposer wide_address) + 8 \<le> 64 \<and>
   snd (address_decomposer wide_address) = 2 ^ 32 \<and>
   map_sum id ret (cache_get backing 2 arena2 wide_address) = Inr 1 \<and>
   map_sum id value_out (cache_get backing 2 arena2 wide_address) =
     Inr (Some (reverse_endian (take 8 (snd (backing wide_address [] 64))))) \<and>
   map_sum id reads (cache_get backing 2 arena2 wide_address) = Inr [wide_address] \<and>
   map tag (cacheLineArray (cacheSetArray (cache (projr (cache_get backing 2 arena2 wide_address))))) =
     [0, 0] \<and>
   map_sum id ret
     (cache_get backing 2 (cache (projr (cache_get backing 2 arena2 wide_address))) wide_address) =
     Inr 1 \<and>
   map_sum id value_out
     (cache_get backing 2 (cache (projr (cache_get backing 2 arena2 wide_address))) wide_address) =
     Inr (Some (reverse_endian (take 8 (snd (backing wide_address [] 64))))) \<and>
   map_sum id reads
     (cache_get backing 2 (cache (projr (cache_get backing 2 arena2 wide_address))) wide_address) =
     Inr [wide_address]"
  by code_simp

section \<open>Every call returns when the invariant holds\<close>

lemma fetch_line_returns:
  assumes "recency_perm n st" "n \<noteq> 0"
  shows "\<exists>ok st' vt'. fetch_line m st tg n ba vt skip k s = Inr (ok, st', vt') \<and> recency_perm n st'"
proof -
  obtain e where e: "evicted_line st n = Some e"
    using perm_evicted [OF assms] by blast
  show ?thesis
    unfolding fetch_line_installed [OF assms(1) e]
    using filled_perm [OF installed_perm [OF assms(1) e]] by blast
qed

lemma second_returns:
  assumes "recency_perm n st" "n \<noteq> 0"
  shows "\<exists>r. across_second m n c ba ntag n1 n2 h2 st vt rd = Inr r \<and> ret r = 0 \<and>
              reads r = rd @ (if h2 then [] else [ba])"
proof (cases h2)
  case True
  then show ?thesis unfolding across_second_def by simp
next
  case False
  obtain ok st' vt' where f: "fetch_line m st ntag n ba vt 0 n2 n1 = Inr (ok, st', vt')"
    using fetch_line_returns [OF assms] by blast
  show ?thesis
    unfolding across_second_def using False f by simp
qed

lemma across_returns:
  assumes "recency_perm n (cacheSetArray c)" "n \<noteq> 0"
  shows "\<exists>r. cache_get_across m n c a off tg = Inr r \<and> ret r = 0 \<and>
              (hit_line (cacheSetArray c) tg n = None \<longrightarrow> reads r \<noteq> [] \<and> hd (reads r) = a - off)"
proof -
  let ?n1 = "ucast (ucast sizeOfBlock - off) :: 32 word"
  let ?n2 = "ucast (8 - (ucast sizeOfBlock - off)) :: 32 word"
  let ?na = "a + (ucast sizeOfBlock - off)"
  obtain noff ntag where nd: "address_decomposer ?na = (noff, ntag)"
    by (cases "address_decomposer ?na")
  obtain h1 st1 vt1 where s1: "scan_line (cacheSetArray c) tg n (replicate 8 0) (unat off) ?n1 0 = (h1, st1, vt1)"
    by (metis prod_cases3)
  obtain h2 st2 vt2 where s2: "scan_line st1 ntag n vt1 0 ?n2 ?n1 = (h2, st2, vt2)"
    by (metis prod_cases3)
  have h1: "h1 \<longleftrightarrow> hit_line (cacheSetArray c) tg n \<noteq> None"
    using scan_line_flag [of "cacheSetArray c" tg n "replicate 8 0" "unat off" ?n1 0] s1 by simp
  have p1: "recency_perm n st1"
    using scan_line_perm [OF assms(1), of tg "replicate 8 0" "unat off" ?n1 0] s1 by simp
  have p2: "recency_perm n st2"
    using scan_line_perm [OF p1, of ntag vt1 0 ?n2 ?n1] s2 by simp
  note unf = cache_get_across_def Let_def nd s1 s2 prod.case
  show ?thesis
  proof (cases h1)
    case True
    obtain r where "across_second m n c (?na - noff) ntag ?n1 ?n2 h2 st2 vt2 [] = Inr r" "ret r = 0"
      using second_returns [OF p2 assms(2)] by blast
    moreover have "hit_line (cacheSetArray c) tg n \<noteq> None" using True h1 by simp
    ultimately show ?thesis unfolding unf using True by auto
  next
    case False
    obtain ok st3 vt3 where f: "fetch_line m st2 tg n (a - off) vt2 (unat off) ?n1 0 = Inr (ok, st3, vt3)"
      and p3: "recency_perm n st3"
      using fetch_line_returns [OF p2 assms(2)] by blast
    show ?thesis
    proof (cases ok)
      case True
      obtain r where "across_second m n c (?na - noff) ntag ?n1 ?n2 h2 st3 vt3 [a - off] = Inr r"
        "ret r = 0" "reads r = [a - off] @ (if h2 then [] else [?na - noff])"
        using second_returns [OF p3 assms(2)] by blast
      then show ?thesis unfolding unf using False True f by simp
    next
      case nok: False
      then show ?thesis unfolding unf using False f by simp
    qed
  qed
qed

lemma within_returns:
  assumes "recency_perm n (cacheSetArray c)" "n \<noteq> 0"
  shows "\<exists>r. cache_get_within m n c a off tg = Inr r \<and>
              (hit_line (cacheSetArray c) tg n = None \<longrightarrow> reads r = [a - off])"
proof (cases "hit_line (cacheSetArray c) tg n")
  case (Some i)
  then show ?thesis
    using within_hit [OF perm_length [OF assms(1)] Some] by simp
next
  case None
  obtain e where e: "evicted_line (cacheSetArray c) n = Some e"
    using perm_evicted [OF assms] by blast
  show ?thesis
    unfolding within_miss [OF assms(1) None e] using None by simp
qed

lemma cache_get_returns:
  assumes "initialized c \<noteq> 0" "recency_perm n (cacheSetArray c)" "n \<noteq> 0"
  shows "\<exists>r. cache_get m n c a = Inr r \<and>
     (\<not> fst (address_decomposer a) + 8 \<le> 64 \<longrightarrow> ret r = 0) \<and>
     (hit_line (cacheSetArray c) (snd (address_decomposer a)) n = None \<longrightarrow>
        reads r \<noteq> [] \<and> hd (reads r) = a - fst (address_decomposer a))"
proof (cases "take_bit 6 a + 8 \<le> (64 :: 64 word)")
  case True
  obtain r where "cache_get_within m n c a (take_bit 6 a) (drop_bit 6 a) = Inr r"
    "hit_line (cacheSetArray c) (drop_bit 6 a) n = None \<longrightarrow> reads r = [a - take_bit 6 a]"
    using within_returns [OF assms(2,3)] by blast
  then show ?thesis
    unfolding cache_get_initialised [OF assms(1)] address_decomposer_eq fst_conv snd_conv
    using True by auto
next
  case False
  obtain r where "cache_get_across m n c a (take_bit 6 a) (drop_bit 6 a) = Inr r" "ret r = 0"
    "hit_line (cacheSetArray c) (drop_bit 6 a) n = None \<longrightarrow>
       reads r \<noteq> [] \<and> hd (reads r) = a - take_bit 6 a"
    using across_returns [OF assms(2,3)] by blast
  then show ?thesis
    unfolding cache_get_initialised [OF assms(1)] address_decomposer_eq fst_conv snd_conv
    using False by auto
qed

section \<open>The recency invariant in every reachable state\<close>

text \<open>
  C3. In every reachable state of the fast memory (after \<open>init\<close> and any sequence of
  calls of \<open>cache_get\<close> that return, whatever the backing reads did) the times of the
  lines are a permutation of \<open>0, \<dots>, numOfLines - 1\<close>; \<open>init\<close> establishes it
  (\<open>init_perm\<close>), and from such a state every \<open>setLRU\<close> on a line of the array and every
  \<open>findEvict\<close> that returns keep it. When there is at least one line, every call of
  \<open>cache_get\<close> from such a state does return, and leaves a state that satisfies it again.
\<close>

theorem recency_invariant:
  assumes "reachable n c"
  shows "recency_perm n (cacheSetArray c) \<and>
         (\<forall>l<unat n. recency_perm n (setLRU (cacheSetArray c) l n)) \<and>
         (\<forall>tg e st'. findEvict (cacheSetArray c) tg n = Inr (e, st') \<longrightarrow> recency_perm n st') \<and>
         (n \<noteq> 0 \<longrightarrow>
            (\<forall>m a. \<exists>r. cache_get m n c a = Inr r \<and> recency_perm n (cacheSetArray (cache r))))"
proof -
  have p: "recency_perm n (cacheSetArray c)" and i: "initialized c \<noteq> 0"
    using reachable_ok [OF assms] by simp_all
  have "\<exists>r. cache_get m n c a = Inr r \<and> recency_perm n (cacheSetArray (cache r))"
    if nz: "n \<noteq> 0" for m a
  proof -
    obtain r where r: "cache_get m n c a = Inr r"
      using cache_get_returns [OF i p nz, of m a] by blast
    then show ?thesis using cache_get_perm [OF p i r] by blast
  qed
  then show ?thesis
    using p setLRU_perm [OF p] findEvict_perm [OF p] by blast
qed

lemma arena2_length: "length (cacheLineArray (cacheSetArray arena2)) = unat (2 :: 32 word)"
  by (simp add: arena2_def)

lemma arena2_get: "cache_get failing 2 (init 2 arena2) 60 = Inr (projr (cache_get failing 2 (init 2 arena2) 60))"
  by code_simp

theorem recency_invariant_witness:
  "reachable 2 (cache (projr (cache_get failing 2 (init 2 arena2) 60))) \<and>
   recency_perm 2 (cacheSetArray (cache (projr (cache_get failing 2 (init 2 arena2) 60)))) \<and>
   map time (cacheLineArray (cacheSetArray (cache (projr (cache_get failing 2 (init 2 arena2) 60))))) = [1, 0] \<and>
   recency_perm 2 (setLRU (cacheSetArray (cache (projr (cache_get failing 2 (init 2 arena2) 60)))) 1 2)"
proof -
  have r: "reachable 2 (cache (projr (cache_get failing 2 (init 2 arena2) 60)))"
    using reach_get [OF reach_init [OF arena2_length] arena2_get] .
  have t: "map time (cacheLineArray (cacheSetArray (cache (projr (cache_get failing 2 (init 2 arena2) 60))))) = [1, 0]"
    by code_simp
  have "(1 :: nat) < unat (2 :: 32 word)" by simp
  then show ?thesis
    using r t recency_invariant [OF r] by blast
qed


section \<open>Tags of \<open>2^32\<close> and more\<close>

text \<open>
  C10, as amended. A line stores its tag cut to 32 bits, and the scan compares the stored
  tag, widened again, with the 64-bit tag of the request. So for every address whose
  tag \<open>t\<close> is \<open>2^32\<close> or more no scan ever finds a line, and every \<open>cache_get\<close> of it,
  crossing or not, reads its block from the backing memory again. When the word of such
  an address lies inside one block, the call installs \<open>t mod 2^32\<close> in the evicted line;
  a repeated call misses again; and a request inside a block whose tag is \<open>t mod 2^32\<close>
  hits the installed line and is served the bytes of its block, provided that no valid
  line before it in the array stores \<open>t mod 2^32\<close> already.
\<close>

theorem wide_tag_aliases:
  assumes "initialized c \<noteq> 0" and "recency_perm n (cacheSetArray c)" and "n \<noteq> 0"
    and "\<not> snd (address_decomposer a) < 2 ^ 32"
  shows "(\<forall>st. hit_line st (snd (address_decomposer a)) n = None) \<and>
    (\<exists>r. cache_get m n c a = Inr r \<and> reads r \<noteq> [] \<and> hd (reads r) = a - fst (address_decomposer a)) \<and>
    (fst (address_decomposer a) + 8 \<le> 64 \<longrightarrow>
      (\<exists>r e. cache_get m n c a = Inr r \<and> reads r = [a - fst (address_decomposer a)] \<and>
         evicted_line (cacheSetArray c) n = Some e \<and> e < unat n \<and>
         valid (cacheLineArray (cacheSetArray (cache r)) ! e) = 1 \<and>
         tag (cacheLineArray (cacheSetArray (cache r)) ! e) = ucast (snd (address_decomposer a)) \<and>
         (\<forall>m'. \<exists>r'. cache_get m' n (cache r) a = Inr r' \<and>
                  reads r' = [a - fst (address_decomposer a)]) \<and>
         (\<forall>m' b. snd (address_decomposer b) =
                    ucast (ucast (snd (address_decomposer a)) :: 32 word) \<and>
                  fst (address_decomposer b) + 8 \<le> 64 \<and>
                  (\<forall>j<e. \<not> (valid (cacheLineArray (cacheSetArray c) ! j) \<noteq> 0 \<and>
                             tag (cacheLineArray (cacheSetArray c) ! j) =
                               ucast (snd (address_decomposer a)))) \<and>
                  length (cacheBlock (cacheLineArray (cacheSetArray (cache r)) ! e)) = 64 \<longrightarrow>
            cache_get m' n (cache r) b =
              Inr \<lparr>ret = 1,
                   value_out = Some (reverse_endian (take 8 (drop (unat (fst (address_decomposer b)))
                     (cacheBlock (cacheLineArray (cacheSetArray (cache r)) ! e))))),
                   cache = (cache r)\<lparr>cacheSetArray := setLRU (cacheSetArray (cache r)) e n\<rparr>,
                   reads = []\<rparr>)))"
proof -
  let ?st = "cacheSetArray c"
  let ?off = "take_bit 6 a" and ?tg = "drop_bit 6 a"
  note ad = address_decomposer_eq fst_conv snd_conv
  have wide: "\<not> ?tg < 2 ^ 32" using assms(4) unfolding ad .
  have never: "hit_line st ?tg n = None" for st
    using wide_tag_never_hits [OF wide] .
  have part2: "\<exists>r. cache_get m n c a = Inr r \<and> reads r \<noteq> [] \<and> hd (reads r) = a - ?off"
  proof -
    obtain r where "cache_get m n c a = Inr r"
      "hit_line ?st ?tg n = None \<longrightarrow> reads r \<noteq> [] \<and> hd (reads r) = a - ?off"
      using cache_get_returns [OF assms(1-3), of m a] unfolding ad by auto
    then show ?thesis using never [of ?st] by auto
  qed
  have part3: "\<exists>r e. cache_get m n c a = Inr r \<and> reads r = [a - ?off] \<and>
         evicted_line ?st n = Some e \<and> e < unat n \<and>
         valid (cacheLineArray (cacheSetArray (cache r)) ! e) = 1 \<and>
         tag (cacheLineArray (cacheSetArray (cache r)) ! e) = ucast ?tg \<and>
         (\<forall>m'. \<exists>r'. cache_get m' n (cache r) a = Inr r' \<and> reads r' = [a - ?off]) \<and>
         (\<forall>m' b. drop_bit 6 b = ucast (ucast ?tg :: 32 word) \<and>
                  take_bit 6 b + 8 \<le> 64 \<and>
                  (\<forall>j<e. \<not> (valid (cacheLineArray ?st ! j) \<noteq> 0 \<and>
                             tag (cacheLineArray ?st ! j) = ucast ?tg)) \<and>
                  length (cacheBlock (cacheLineArray (cacheSetArray (cache r)) ! e)) = 64 \<longrightarrow>
            cache_get m' n (cache r) b =
              Inr \<lparr>ret = 1,
                   value_out = Some (reverse_endian (take 8 (drop (unat (take_bit 6 b))
                     (cacheBlock (cacheLineArray (cacheSetArray (cache r)) ! e))))),
                   cache = (cache r)\<lparr>cacheSetArray := setLRU (cacheSetArray (cache r)) e n\<rparr>,
                   reads = []\<rparr>)"
    if w: "?off + 8 \<le> 64"
  proof -
    obtain e where e: "evicted_line ?st n = Some e"
      using perm_evicted [OF assms(2,3)] by blast
    note ev = evicted_line_Some [OF assms(2) e]
    note len = perm_length [OF assms(2)]
    have el: "e < length (cacheLineArray ?st)" using ev len by simp
    let ?res = "m (a - ?off) (cacheBlock (cacheLineArray ?st ! e)) 64"
    let ?st' = "filled (installed n ?st e ?tg) e (snd ?res)"
    obtain r where g: "cache_get m n c a = Inr r" and rd: "reads r = [a - ?off]"
      and st': "cacheSetArray (cache r) = ?st'" and fl: "initialized (cache r) = initialized c"
      unfolding cache_get_initialised [OF assms(1)]
      using w within_miss [OF assms(2) never e, of m a ?off] by simp
    have line: "cacheLineArray ?st' ! e =
        (cacheLineArray ?st ! e)\<lparr>time := 0, valid := 1, tag := ucast ?tg, cacheBlock := snd ?res\<rparr>"
      using installed_filled_nth [OF el, of n e ?tg "snd ?res"] by simp
    have perm': "recency_perm n ?st'"
      using filled_perm [OF installed_perm [OF assms(2) e]] .
    have i': "initialized (cache r) \<noteq> 0" using fl assms(1) by simp
    have rep: "\<exists>r'. cache_get m' n (cache r) a = Inr r' \<and> reads r' = [a - ?off]" for m'
    proof -
      have p: "recency_perm n (cacheSetArray (cache r))" unfolding st' by (rule perm')
      obtain r' where "cache_get_within m' n (cache r) a ?off ?tg = Inr r'"
        "reads r' = [a - ?off]"
        using within_returns [OF p assms(3), of m' a ?off ?tg] never [of "cacheSetArray (cache r)"]
        by auto
      then show ?thesis
        unfolding cache_get_initialised [OF i'] using w by simp
    qed
    have served: "cache_get m' n (cache r) b =
              Inr \<lparr>ret = 1,
                   value_out = Some (reverse_endian (take 8 (drop (unat (take_bit 6 b))
                     (cacheBlock (cacheLineArray (cacheSetArray (cache r)) ! e))))),
                   cache = (cache r)\<lparr>cacheSetArray := setLRU (cacheSetArray (cache r)) e n\<rparr>,
                   reads = []\<rparr>"
      if b: "drop_bit 6 b = ucast (ucast ?tg :: 32 word)" and wb: "take_bit 6 b + 8 \<le> 64"
        and first: "\<forall>j<e. \<not> (valid (cacheLineArray ?st ! j) \<noteq> 0 \<and>
                             tag (cacheLineArray ?st ! j) = ucast ?tg)"
        and bl: "length (cacheBlock (cacheLineArray (cacheSetArray (cache r)) ! e)) = 64"
      for m' b
    proof -
      have before: "\<forall>j<e. \<not> (valid (cacheLineArray ?st ! j) \<noteq> 0 \<and>
                      ucast (tag (cacheLineArray ?st ! j)) = drop_bit 6 b)"
      proof (intro allI impI notI)
        fix j assume j: "j < e"
          and h: "valid (cacheLineArray ?st ! j) \<noteq> 0 \<and>
                  ucast (tag (cacheLineArray ?st ! j)) = drop_bit 6 b"
        then have "(ucast (ucast (tag (cacheLineArray ?st ! j)) :: 64 word) :: 32 word) =
                   ucast (ucast (ucast ?tg :: 32 word) :: 64 word)"
          using b by simp
        then have "tag (cacheLineArray ?st ! j) = ucast ?tg"
          by (simp add: stored_tag_back)
        with first j h show False by blast
      qed
      have blk: "cacheBlock (cacheLineArray (cacheSetArray (cache r)) ! e) = snd ?res"
        unfolding st' using line by simp
      have bl': "length (snd ?res) = 64" using bl blk by simp
      show ?thesis
        unfolding blk
        using get_installed_line [OF i' assms(2) e st' before b [symmetric] wb bl', of m'] .
    qed
    show ?thesis
      apply (rule exI [of _ r], rule exI [of _ e])
      using g rd e ev rep served line unfolding st' [symmetric]
      by (simp add: st')
  qed
  show ?thesis
    unfolding ad using never part2 part3 by blast
qed


theorem wide_tag_aliases_witness:
  "initialized (init 2 arena2) \<noteq> 0 \<and> recency_perm 2 (cacheSetArray (init 2 arena2)) \<and>
   \<not> snd (address_decomposer wide_address) < 2 ^ 32 \<and>
   fst (address_decomposer wide_address) + 8 \<le> 64 \<and>
   (\<exists>r. cache_get backing 2 (init 2 arena2) wide_address = Inr r \<and> reads r = [wide_address] \<and>
        map_sum id reads (cache_get backing 2 (cache r) wide_address) = Inr [wide_address] \<and>
        map_sum id reads (cache_get failing 2 (cache r) 0) = Inr [] \<and>
        map_sum id value_out (cache_get failing 2 (cache r) 0) = Inr (Some 0x4746454443424140))"
proof -
  let ?c = "init 2 arena2"
  let ?r = "projr (cache_get backing 2 ?c wide_address)"
  have 1: "initialized ?c \<noteq> 0" by code_simp
  have 2: "recency_perm 2 (cacheSetArray ?c)" unfolding recency_perm_def by code_simp
  have 3: "(2 :: 32 word) \<noteq> 0" by simp
  have 4: "\<not> snd (address_decomposer wide_address) < 2 ^ 32" by code_simp
  have w: "fst (address_decomposer wide_address) + 8 \<le> 64" by code_simp
  have o: "wide_address - fst (address_decomposer wide_address) = wide_address" by code_simp
  have ev: "cache_get backing 2 ?c wide_address = Inr ?r" by code_simp
  note inst = wide_tag_aliases [where c = ?c and n = 2 and a = wide_address and m = backing,
      OF 1 2 3 4, THEN conjunct2, THEN conjunct2, rule_format, OF w]
  then obtain r e where r: "cache_get backing 2 ?c wide_address = Inr r"
    "reads r = [wide_address - fst (address_decomposer wide_address)]"
    "evicted_line (cacheSetArray ?c) 2 = Some e"
    and rep: "\<And>m'. \<exists>r'. cache_get m' 2 (cache r) wide_address = Inr r' \<and>
                  reads r' = [wide_address - fst (address_decomposer wide_address)]"
    and served: "\<And>m' b. snd (address_decomposer b) =
                    ucast (ucast (snd (address_decomposer wide_address)) :: 32 word) \<and>
                  fst (address_decomposer b) + 8 \<le> 64 \<and>
                  (\<forall>j<e. \<not> (valid (cacheLineArray (cacheSetArray ?c) ! j) \<noteq> 0 \<and>
                             tag (cacheLineArray (cacheSetArray ?c) ! j) =
                               ucast (snd (address_decomposer wide_address)))) \<and>
                  length (cacheBlock (cacheLineArray (cacheSetArray (cache r)) ! e)) = 64 \<Longrightarrow>
            cache_get m' 2 (cache r) b =
              Inr \<lparr>ret = 1,
                   value_out = Some (reverse_endian (take 8 (drop (unat (fst (address_decomposer b)))
                     (cacheBlock (cacheLineArray (cacheSetArray (cache r)) ! e))))),
                   cache = (cache r)\<lparr>cacheSetArray := setLRU (cacheSetArray (cache r)) e 2\<rparr>,
                   reads = []\<rparr>"
    by blast
  have req: "r = ?r" using r(1) ev by simp
  have e: "e = 1"
  proof -
    have "evicted_line (cacheSetArray ?c) 2 = Some 1" by code_simp
    with r(3) show ?thesis by simp
  qed
  have h1: "snd (address_decomposer 0) = ucast (ucast (snd (address_decomposer wide_address)) :: 32 word)"
    by code_simp
  have h2: "fst (address_decomposer 0) + 8 \<le> 64" by code_simp
  have h3: "\<forall>j<e. \<not> (valid (cacheLineArray (cacheSetArray ?c) ! j) \<noteq> 0 \<and>
                    tag (cacheLineArray (cacheSetArray ?c) ! j) =
                      ucast (snd (address_decomposer wide_address)))"
  proof -
    have "valid (cacheLineArray (cacheSetArray ?c) ! 0) = 0" by code_simp
    then show ?thesis unfolding e by simp
  qed
  have h4: "length (cacheBlock (cacheLineArray (cacheSetArray (cache r)) ! e)) = 64"
    unfolding req e by code_simp
  have v: "reverse_endian (take 8 (drop (unat (fst (address_decomposer 0)))
             (cacheBlock (cacheLineArray (cacheSetArray (cache r)) ! e)))) = 0x4746454443424140"
    unfolding req e by code_simp
  from rep [of backing] have a: "map_sum id reads (cache_get backing 2 (cache r) wide_address) = Inr [wide_address]"
    unfolding o by auto
  from served [of 0 failing] h1 h2 h3 h4
  have b: "map_sum id reads (cache_get failing 2 (cache r) 0) = Inr []"
       "map_sum id value_out (cache_get failing 2 (cache r) 0) = Inr (Some 0x4746454443424140)"
    unfolding v by simp_all
  show ?thesis
    using 1 2 4 w r(1) r(2) [unfolded o] a b by blast
qed

text \<open>
  C10 as stated fails when a valid line earlier in the array stores the same 32 bits.
  After the requests 128, 0 and \<open>2^38\<close> on two lines, line 0 holds the block of address 0
  and line 1, evicted for \<open>2^38\<close>, stores the tag 0 as well. A request for address 0 then
  hits line 0 and is served its bytes, not those of the line installed for \<open>2^38\<close>.
\<close>

theorem wide_tag_aliases_counterexample:
  "evicted_line (cacheSetArray (projr (cache_after backing 2 arena2 [128, 0]))) 2 = Some 1 \<and>
   snd (address_decomposer 0) = ucast (ucast (snd (address_decomposer wide_address)) :: 32 word) \<and>
   map tag (cacheLineArray (cacheSetArray (projr (cache_after backing 2 arena2 [128, 0, wide_address])))) =
     [0, 0] \<and>
   map valid (cacheLineArray (cacheSetArray (projr (cache_after backing 2 arena2 [128, 0, wide_address])))) =
     [1, 1] \<and>
   reverse_endian (take 8 (cacheBlock
     (cacheLineArray (cacheSetArray (projr (cache_after backing 2 arena2 [128, 0, wide_address]))) ! 1))) =
     0x4746454443424140 \<and>
   map_sum id value_out
     (cache_get backing 2 (projr (cache_after backing 2 arena2 [128, 0, wide_address])) 0) =
     Inr (Some 0x0706050403020100) \<and>
   map_sum id reads
     (cache_get backing 2 (projr (cache_after backing 2 arena2 [128, 0, wide_address])) 0) = Inr [] \<and>
   map time (cacheLineArray (cacheSetArray (projr (cache_after backing 2 arena2 [128, 0, wide_address, 0])))) =
     [0, 1]"
  by code_simp

section \<open>A crossing request whose second read fails\<close>

lemma hit_line_setLRU:
  assumes "length (cacheLineArray st) = unat n" "l < unat n"
  shows "hit_line (setLRU st l n) tb n = hit_line st tb n"
  unfolding hit_line_def
proof (rule find_cong [OF refl])
  fix i assume "i \<in> set [0..<unat n]"
  then have i: "i < unat n" by simp
  show "(valid (cacheLineArray (setLRU st l n) ! i) \<noteq> 0 \<and>
         ucast (tag (cacheLineArray (setLRU st l n) ! i)) = tb) =
        (valid (cacheLineArray st ! i) \<noteq> 0 \<and> ucast (tag (cacheLineArray st ! i)) = tb)"
    using setLRU_nth [OF assms i] by simp
qed

lemma second_fetch_fails:
  assumes "recency_perm n st" and "n \<noteq> 0" and "\<forall>buf. \<not> fst (m nb buf 64)"
  shows "\<exists>r e. across_second m n c nb ntag n1 n2 False st vt rd = Inr r \<and> ret r = 0 \<and>
           value_out r = None \<and> reads r = rd @ [nb] \<and>
           evicted_line st n = Some e \<and>
           cacheSetArray (cache r) =
             filled (installed n st e ntag) e (snd (m nb (cacheBlock (cacheLineArray st ! e)) 64)) \<and>
           recency_perm n (cacheSetArray (cache r))"
proof -
  obtain e where e: "evicted_line st n = Some e"
    using perm_evicted [OF assms(1,2)] by blast
  let ?st' = "filled (installed n st e ntag) e (snd (m nb (cacheBlock (cacheLineArray st ! e)) 64))"
  have perm': "recency_perm n ?st'"
    using filled_perm [OF installed_perm [OF assms(1) e]] .
  show ?thesis
    unfolding across_second_def fetch_line_installed [OF assms(1) e]
    using assms(3) e perm' by simp
qed

lemma aged_by_second_eviction:
  assumes "recency_perm n st" and "1 < unat n" and "p < unat n"
    and "time (cacheLineArray st ! p) = 0" and "evicted_line st n = Some e"
  shows "p \<noteq> e \<and>
         cacheLineArray (filled (installed n st e ntag) e blk) ! p = (cacheLineArray st ! p)\<lparr>time := 1\<rparr>"
proof -
  have n0: "n \<noteq> 0" using assms(2) by auto
  have n1: "unat (n - 1) = unat n - 1" using unat_minus_one [OF n0] .
  have pos: "0 < n - 1"
    unfolding word_less_nat_alt n1 using assms(2) by simp
  have te: "time (cacheLineArray st ! e) = n - 1"
    using evicted_line_Some [OF assms(1,5)] by blast
  have ne: "p \<noteq> e"
  proof
    assume "p = e"
    with te assms(4) have "n - 1 = 0" by simp
    with pos show False by simp
  qed
  have pl: "p < length (cacheLineArray st)" using assms(3) perm_length [OF assms(1)] by simp
  have "cacheLineArray (filled (installed n st e ntag) e blk) ! p = (cacheLineArray st ! p)\<lparr>time := 1\<rparr>"
    using installed_filled_nth [OF pl, of n e ntag blk] ne assms(4) pos by (simp add: aged_def)
  with ne show ?thesis by blast
qed

text \<open>
  C6. A request that crosses into the next block, on a cache that satisfies the recency
  invariant: when the first half hits, or misses and its read of the backing memory
  succeeds, and the second half misses and its read fails, then \<open>cache_get\<close> returns 0
  and stores no value, and the set it leaves is the set \<open>s1\<close> that the first half produced
  (the line \<open>p\<close> touched, or evicted, tagged and filled) with the second eviction and the
  failed fill on top: nothing is rolled back. With two lines or more the second eviction
  takes another line, so line \<open>p\<close> stays valid, tagged with the first tag, holding its
  block, with time 1 (touched, then aged once).
\<close>

theorem crossing_second_read_fails:
  assumes "initialized c \<noteq> 0" and "recency_perm n (cacheSetArray c)" and "n \<noteq> 0"
    and "\<not> fst (address_decomposer a) + 8 \<le> 64"
    and "hit_line (cacheSetArray c)
           (snd (address_decomposer (a + (64 - fst (address_decomposer a))))) n = None"
    and "hit_line (cacheSetArray c) (snd (address_decomposer a)) n = None \<longrightarrow>
           (\<forall>buf. fst (m (a - fst (address_decomposer a)) buf 64))"
    and "\<forall>buf. \<not> fst (m (a + (64 - fst (address_decomposer a)) -
                        fst (address_decomposer (a + (64 - fst (address_decomposer a))))) buf 64)"
  shows "\<exists>r p s1 e2. cache_get m n c a = Inr r \<and> ret r = 0 \<and> value_out r = None \<and> p < unat n \<and>
      (hit_line (cacheSetArray c) (snd (address_decomposer a)) n = Some p \<and>
         s1 = setLRU (cacheSetArray c) p n \<and>
         reads r = [a + (64 - fst (address_decomposer a)) -
                      fst (address_decomposer (a + (64 - fst (address_decomposer a))))]
       \<or>
       hit_line (cacheSetArray c) (snd (address_decomposer a)) n = None \<and>
         evicted_line (cacheSetArray c) n = Some p \<and>
         s1 = filled (installed n (cacheSetArray c) p (snd (address_decomposer a))) p
                (snd (m (a - fst (address_decomposer a))
                        (cacheBlock (cacheLineArray (cacheSetArray c) ! p)) 64)) \<and>
         reads r = [a - fst (address_decomposer a),
                    a + (64 - fst (address_decomposer a)) -
                      fst (address_decomposer (a + (64 - fst (address_decomposer a))))]) \<and>
      valid (cacheLineArray s1 ! p) \<noteq> 0 \<and>
      tag (cacheLineArray s1 ! p) = ucast (snd (address_decomposer a)) \<and>
      time (cacheLineArray s1 ! p) = 0 \<and>
      evicted_line s1 n = Some e2 \<and>
      cacheSetArray (cache r) =
        filled (installed n s1 e2
                  (snd (address_decomposer (a + (64 - fst (address_decomposer a)))))) e2
          (snd (m (a + (64 - fst (address_decomposer a)) -
                     fst (address_decomposer (a + (64 - fst (address_decomposer a)))))
                  (cacheBlock (cacheLineArray s1 ! e2)) 64)) \<and>
      recency_perm n (cacheSetArray (cache r)) \<and>
      (1 < unat n \<longrightarrow>
         p \<noteq> e2 \<and>
         cacheLineArray (cacheSetArray (cache r)) ! p = (cacheLineArray s1 ! p)\<lparr>time := 1\<rparr>)"
proof -
  let ?st = "cacheSetArray c"
  let ?off = "take_bit 6 a" and ?tg = "drop_bit 6 a"
  let ?na = "a + (64 - ?off)"
  let ?noff = "take_bit 6 ?na" and ?ntag = "drop_bit 6 ?na"
  let ?n1 = "ucast (64 - ?off) :: 32 word"
  let ?n2 = "ucast (8 - (64 - ?off)) :: 32 word"
  note ad = address_decomposer_eq fst_conv snd_conv
  have cross: "\<not> ?off + 8 \<le> 64" using assms(4) unfolding ad .
  have miss2: "hit_line ?st ?ntag n = None" using assms(5) unfolding ad .
  have ok1: "fst (m (a - ?off) buf 64)" if "hit_line ?st ?tg n = None" for buf
    using assms(6) that unfolding ad by blast
  have fail2: "\<forall>buf. \<not> fst (m (?na - ?noff) buf 64)" using assms(7) unfolding ad .
  note len = perm_length [OF assms(2)]
  have g: "cache_get m n c a = cache_get_across m n c a ?off ?tg"
    unfolding cache_get_initialised [OF assms(1)] using cross by simp
  note unf = cache_get_across_def Let_def sizeOfBlock_def ad prod.case
  have sz: "(ucast (64 :: 32 word) :: 64 word) = 64" by simp
  have finish: ?thesis
    if perm1: "recency_perm n s1" and p: "p < unat n"
      and line: "valid (cacheLineArray s1 ! p) \<noteq> 0" "tag (cacheLineArray s1 ! p) = ucast ?tg"
        "time (cacheLineArray s1 ! p) = 0"
      and how: "hit_line ?st ?tg n = Some p \<and> s1 = setLRU ?st p n \<and> rd = [] \<or>
                hit_line ?st ?tg n = None \<and> evicted_line ?st n = Some p \<and>
                s1 = filled (installed n ?st p ?tg) p
                       (snd (m (a - ?off) (cacheBlock (cacheLineArray ?st ! p)) 64)) \<and>
                rd = [a - ?off]"
      and run: "cache_get m n c a = across_second m n c (?na - ?noff) ?ntag ?n1 ?n2 False s1 vt rd"
    for s1 p rd vt
  proof -
    obtain r e2 where r: "across_second m n c (?na - ?noff) ?ntag ?n1 ?n2 False s1 vt rd = Inr r"
      "ret r = 0" "value_out r = None" "reads r = rd @ [?na - ?noff]"
      "evicted_line s1 n = Some e2"
      "cacheSetArray (cache r) = filled (installed n s1 e2 ?ntag) e2
          (snd (m (?na - ?noff) (cacheBlock (cacheLineArray s1 ! e2)) 64))"
      "recency_perm n (cacheSetArray (cache r))"
      using second_fetch_fails [where m = m and nb = "?na - ?noff", OF perm1 assms(3) fail2]
      by blast
    have last: "p \<noteq> e2 \<and>
        cacheLineArray (cacheSetArray (cache r)) ! p = (cacheLineArray s1 ! p)\<lparr>time := 1\<rparr>"
      if "1 < unat n"
      unfolding r(6) using aged_by_second_eviction [OF perm1 that p line(3) r(5)] .
    show ?thesis
      unfolding ad
      apply (rule exI [of _ r], rule exI [of _ p], rule exI [of _ s1], rule exI [of _ e2])
      using run r(1-7) p line how last by auto
  qed
  show ?thesis
  proof (cases "hit_line ?st ?tg n")
    case (Some p)
    have p: "p < unat n" and hp: "valid (cacheLineArray ?st ! p) \<noteq> 0"
      "ucast (tag (cacheLineArray ?st ! p)) = ?tg"
      using hit_line_Some [OF Some] by blast+
    let ?st1 = "setLRU ?st p n"
    have perm1: "recency_perm n ?st1" using setLRU_perm [OF assms(2) p] .
    have line1: "cacheLineArray ?st1 ! p = (cacheLineArray ?st ! p)\<lparr>time := 0\<rparr>"
      using setLRU_nth [OF len p p] by simp
    have tagp: "tag (cacheLineArray ?st ! p) = ucast ?tg"
      using hp(2) stored_tag_back [of "tag (cacheLineArray ?st ! p)"] by simp
    have miss2': "hit_line ?st1 ?ntag n = None"
      using hit_line_setLRU [OF len p] miss2 by simp
    obtain vt1 where s1: "scan_line ?st ?tg n (replicate 8 0) (unat ?off) ?n1 0 = (True, ?st1, vt1)"
      using scan_line_hit [OF Some] by simp
    have s2: "scan_line ?st1 ?ntag n vt1 0 ?n2 ?n1 = (False, ?st1, vt1)"
      using scan_line_miss [OF miss2'] .
    have run: "cache_get m n c a = across_second m n c (?na - ?noff) ?ntag ?n1 ?n2 False ?st1 vt1 []"
      unfolding g unf sz s1 s2 by simp
    show ?thesis
      by (rule finish [OF perm1 p _ _ _ _ run]) (use line1 hp(1) tagp Some in simp_all)
  next
    case None
    have n0: "n \<noteq> 0" by (rule assms(3))
    obtain e where e: "evicted_line ?st n = Some e"
      using perm_evicted [OF assms(2) n0] by blast
    note ev = evicted_line_Some [OF assms(2) e]
    have el: "e < length (cacheLineArray ?st)" using ev len by simp
    let ?blk = "snd (m (a - ?off) (cacheBlock (cacheLineArray ?st ! e)) 64)"
    let ?st3 = "filled (installed n ?st e ?tg) e ?blk"
    have perm3: "recency_perm n ?st3"
      using filled_perm [OF installed_perm [OF assms(2) e]] .
    have line3: "cacheLineArray ?st3 ! e =
        (cacheLineArray ?st ! e)\<lparr>time := 0, valid := 1, tag := ucast ?tg, cacheBlock := ?blk\<rparr>"
      using installed_filled_nth [OF el, of n e ?tg ?blk] by simp
    have s1: "scan_line ?st ?tg n (replicate 8 0) (unat ?off) ?n1 0 = (False, ?st, replicate 8 0)"
      using scan_line_miss [OF None] .
    have s2: "scan_line ?st ?ntag n (replicate 8 0) 0 ?n2 ?n1 = (False, ?st, replicate 8 0)"
      using scan_line_miss [OF miss2] .
    obtain vt3 where f: "fetch_line m ?st ?tg n (a - ?off) (replicate 8 0) (unat ?off) ?n1 0 =
        Inr (True, ?st3, vt3)"
      unfolding fetch_line_installed [OF assms(2) e] using ok1 [OF None] by simp
    have run: "cache_get m n c a =
        across_second m n c (?na - ?noff) ?ntag ?n1 ?n2 False ?st3 vt3 [a - ?off]"
      unfolding g unf sz s1 s2 f by simp
    have e': "e < unat n" using ev by blast
    show ?thesis
      by (rule finish [OF perm3 e' _ _ _ _ run]) (use line3 None e in simp_all)
  qed
qed

theorem crossing_second_read_fails_witness:
  "initialized (init 2 arena2) \<noteq> 0 \<and> recency_perm 2 (cacheSetArray (init 2 arena2)) \<and>
   \<not> fst (address_decomposer 60) + 8 \<le> 64 \<and>
   hit_line (cacheSetArray (init 2 arena2))
     (snd (address_decomposer (60 + (64 - fst (address_decomposer 60))))) 2 = None \<and>
   fst (backing_but 64 (60 - fst (address_decomposer 60)) [] 64) \<and>
   \<not> fst (backing_but 64 (60 + (64 - fst (address_decomposer 60)) -
              fst (address_decomposer (60 + (64 - fst (address_decomposer 60))))) [] 64) \<and>
   (\<exists>r. cache_get (backing_but 64) 2 (init 2 arena2) 60 = Inr r \<and> ret r = 0 \<and>
      value_out r = None \<and> reads r = [0, 64] \<and>
      map valid (cacheLineArray (cacheSetArray (cache r))) = [1, 1] \<and>
      map tag (cacheLineArray (cacheSetArray (cache r))) = [1, 0] \<and>
      map time (cacheLineArray (cacheSetArray (cache r))) = [0, 1] \<and>
      cacheBlock (cacheLineArray (cacheSetArray (cache r)) ! 1) = snd (backing 0 [] 64))"
proof -
  let ?c = "init 2 arena2"
  let ?r = "projr (cache_get (backing_but 64) 2 ?c 60)"
  have 1: "initialized ?c \<noteq> 0" by code_simp
  have 2: "recency_perm 2 (cacheSetArray ?c)" unfolding recency_perm_def by code_simp
  have 3: "(2 :: 32 word) \<noteq> 0" by simp
  have 4: "\<not> fst (address_decomposer 60) + 8 \<le> 64" by code_simp
  have 5: "hit_line (cacheSetArray ?c)
     (snd (address_decomposer (60 + (64 - fst (address_decomposer 60))))) 2 = None" by code_simp
  have a1: "60 - fst (address_decomposer 60) = (0 :: 64 word)" by code_simp
  have a2: "60 + (64 - fst (address_decomposer 60)) -
              fst (address_decomposer (60 + (64 - fst (address_decomposer 60)))) = (64 :: 64 word)"
    by code_simp
  have 6: "hit_line (cacheSetArray ?c) (snd (address_decomposer 60)) 2 = None \<longrightarrow>
           (\<forall>buf. fst (backing_but 64 (60 - fst (address_decomposer 60)) buf 64))"
    unfolding a1 by (simp add: backing_but_def backing_def)
  have 7: "\<forall>buf. \<not> fst (backing_but 64 (60 + (64 - fst (address_decomposer 60)) -
              fst (address_decomposer (60 + (64 - fst (address_decomposer 60))))) buf 64)"
    unfolding a2 by (simp add: backing_but_def)
  have ev: "cache_get (backing_but 64) 2 ?c 60 = Inr ?r" by code_simp
  have f: "ret ?r = 0 \<and> value_out ?r = None \<and> reads ?r = [0, 64] \<and>
      map valid (cacheLineArray (cacheSetArray (cache ?r))) = [1, 1] \<and>
      map tag (cacheLineArray (cacheSetArray (cache ?r))) = [1, 0] \<and>
      map time (cacheLineArray (cacheSetArray (cache ?r))) = [0, 1] \<and>
      cacheBlock (cacheLineArray (cacheSetArray (cache ?r)) ! 1) = snd (backing 0 [] 64)"
    by code_simp
  from crossing_second_read_fails [where c = ?c and n = 2 and a = 60 and m = "backing_but 64",
      OF 1 2 3 4 5 6 7]
  obtain r where g: "cache_get (backing_but 64) 2 ?c 60 = Inr r" by blast
  with ev have req: "r = ?r" by simp
  have f': "ret r = 0 \<and> value_out r = None \<and> reads r = [0, 64] \<and>
      map valid (cacheLineArray (cacheSetArray (cache r))) = [1, 1] \<and>
      map tag (cacheLineArray (cacheSetArray (cache r))) = [1, 0] \<and>
      map time (cacheLineArray (cacheSetArray (cache r))) = [0, 1] \<and>
      cacheBlock (cacheLineArray (cacheSetArray (cache r)) ! 1) = snd (backing 0 [] 64)"
    unfolding req using f .
  have h6: "fst (backing_but 64 (60 - fst (address_decomposer 60)) [] 64)" by code_simp
  have h7: "\<not> fst (backing_but 64 (60 + (64 - fst (address_decomposer 60)) -
              fst (address_decomposer (60 + (64 - fst (address_decomposer 60))))) [] 64)"
    by code_simp
  have ex: "\<exists>r. cache_get (backing_but 64) 2 (init 2 arena2) 60 = Inr r \<and> ret r = 0 \<and>
      value_out r = None \<and> reads r = [0, 64] \<and>
      map valid (cacheLineArray (cacheSetArray (cache r))) = [1, 1] \<and>
      map tag (cacheLineArray (cacheSetArray (cache r))) = [1, 0] \<and>
      map time (cacheLineArray (cacheSetArray (cache r))) = [0, 1] \<and>
      cacheBlock (cacheLineArray (cacheSetArray (cache r)) ! 1) = snd (backing 0 [] 64)"
    by (rule exI [of _ r], rule conjI [OF g f'])
  show ?thesis
    by (rule conjI [OF 1 conjI [OF 2 conjI [OF 4 conjI [OF 5 conjI [OF h6 conjI [OF h7 ex]]]]]])
qed

section \<open>Which line a request inside a block leaves most recent\<close>

lemma get_resolves:
  assumes "initialized c \<noteq> 0" and "recency_perm n (cacheSetArray c)" and "n \<noteq> 0"
    and "take_bit 6 a + 8 \<le> 64"
  shows "\<exists>r p. cache_get m n c a = Inr r \<and> p < unat n \<and>
      initialized (cache r) = initialized c \<and> recency_perm n (cacheSetArray (cache r)) \<and>
      (hit_line (cacheSetArray c) (drop_bit 6 a) n = Some p \<and> reads r = [] \<or>
       hit_line (cacheSetArray c) (drop_bit 6 a) n = None \<and>
         evicted_line (cacheSetArray c) n = Some p \<and> reads r = [a - take_bit 6 a]) \<and>
      valid (cacheLineArray (cacheSetArray (cache r)) ! p) \<noteq> 0 \<and>
      tag (cacheLineArray (cacheSetArray (cache r)) ! p) = ucast (drop_bit 6 a) \<and>
      time (cacheLineArray (cacheSetArray (cache r)) ! p) = 0 \<and>
      (\<forall>j<unat n. j \<noteq> p \<longrightarrow>
         valid (cacheLineArray (cacheSetArray (cache r)) ! j) =
           valid (cacheLineArray (cacheSetArray c) ! j) \<and>
         tag (cacheLineArray (cacheSetArray (cache r)) ! j) =
           tag (cacheLineArray (cacheSetArray c) ! j))"
proof -
  let ?st = "cacheSetArray c"
  let ?off = "take_bit 6 a" and ?tg = "drop_bit 6 a"
  note len = perm_length [OF assms(2)]
  have g: "cache_get m n c a = cache_get_within m n c a ?off ?tg"
    unfolding cache_get_initialised [OF assms(1)] using assms(4) by simp
  show ?thesis
  proof (cases "hit_line ?st ?tg n")
    case (Some p)
    have p: "p < unat n" and hp: "valid (cacheLineArray ?st ! p) \<noteq> 0"
      "ucast (tag (cacheLineArray ?st ! p)) = ?tg"
      using hit_line_Some [OF Some] by blast+
    have tagp: "tag (cacheLineArray ?st ! p) = ucast ?tg"
      using hp(2) stored_tag_back [of "tag (cacheLineArray ?st ! p)"] by simp
    let ?st1 = "setLRU ?st p n"
    have perm1: "recency_perm n ?st1" using setLRU_perm [OF assms(2) p] .
    have nth: "cacheLineArray ?st1 ! j =
        (if j = p then (cacheLineArray ?st ! p)\<lparr>time := 0\<rparr>
         else aged (time (cacheLineArray ?st ! p)) (cacheLineArray ?st ! j))" if "j < unat n" for j
      using setLRU_nth [OF len p that] .
    obtain r where r: "cache_get m n c a = Inr r" "reads r = []"
      "cacheSetArray (cache r) = ?st1" "initialized (cache r) = initialized c"
      unfolding g within_hit [OF len Some] by simp
    show ?thesis
      apply (rule exI [of _ r], rule exI [of _ p])
      unfolding r(3)
      using r(1,2,4) p perm1 Some hp(1) tagp nth by simp
  next
    case None
    obtain e where e: "evicted_line ?st n = Some e"
      using perm_evicted [OF assms(2,3)] by blast
    note ev = evicted_line_Some [OF assms(2) e]
    have e': "e < unat n" using ev by blast
    let ?blk = "snd (m (a - ?off) (cacheBlock (cacheLineArray ?st ! e)) 64)"
    let ?st1 = "filled (installed n ?st e ?tg) e ?blk"
    have perm1: "recency_perm n ?st1"
      using filled_perm [OF installed_perm [OF assms(2) e]] .
    have nth: "cacheLineArray ?st1 ! j =
         (if j = e
          then (cacheLineArray ?st ! e)\<lparr>time := 0, valid := 1, tag := ucast ?tg, cacheBlock := ?blk\<rparr>
          else aged (n - 1) (cacheLineArray ?st ! j))" if "j < unat n" for j
      using installed_filled_nth [of j ?st n e ?tg ?blk] that len by simp
    obtain r where r: "cache_get m n c a = Inr r" "reads r = [a - ?off]"
      "cacheSetArray (cache r) = ?st1" "initialized (cache r) = initialized c"
      unfolding g within_miss [OF assms(2) None e] by simp
    show ?thesis
      apply (rule exI [of _ r], rule exI [of _ e])
      unfolding r(3)
      using r(1,2,4) e' perm1 None e nth by simp
  qed
qed

lemma two_lines:
  assumes "p1 < (2 :: nat)" "p2 < 2" "p1 \<noteq> p2" "i < 2"
  shows "i = p1 \<or> i = p2"
  using assms by auto

lemma stored_tag_differs:
  fixes t1 t3 :: "64 word"
  assumes "(ucast t1 :: 32 word) \<noteq> ucast t3" "x = (ucast t1 :: 32 word)"
  shows "(ucast x :: 64 word) \<noteq> t3"
proof
  assume "(ucast x :: 64 word) = t3"
  then have "(ucast (ucast x :: 64 word) :: 32 word) = ucast t3" by simp
  then have "x = ucast t3" by (simp add: stored_tag_back)
  with assms show False by simp
qed

text \<open>
  The eviction order where tags do not collide in the tag field. On two lines that
  satisfy the recency invariant, after requests inside
  a block for the tags \<open>T1\<close>, \<open>T2\<close>, \<open>T3\<close>, in this order, that differ from one another in
  their low 32 bits: before the third request the line that holds \<open>T1\<close> is the only line
  with time 1 (\<open>numOfLines - 1\<close>); the third request misses, the line chosen for eviction
  is the line that holds \<open>T1\<close>, and it gets the tag \<open>T3\<close>. In general, on any number of
  lines, \<open>findEvict\<close> returns the one line whose time is \<open>numOfLines - 1\<close>.
\<close>

lemma lru_evicts_first_of_three:
  assumes "initialized c \<noteq> 0" and "recency_perm 2 (cacheSetArray c)"
    and "fst (address_decomposer a1) + 8 \<le> 64" and "fst (address_decomposer a2) + 8 \<le> 64"
    and "fst (address_decomposer a3) + 8 \<le> 64"
    and "(ucast (snd (address_decomposer a1)) :: 32 word) \<noteq> ucast (snd (address_decomposer a2))"
    and "(ucast (snd (address_decomposer a1)) :: 32 word) \<noteq> ucast (snd (address_decomposer a3))"
    and "(ucast (snd (address_decomposer a2)) :: 32 word) \<noteq> ucast (snd (address_decomposer a3))"
  shows "(\<exists>r1 r2 r3 p.
      cache_get m1 2 c a1 = Inr r1 \<and> cache_get m2 2 (cache r1) a2 = Inr r2 \<and>
      cache_get m3 2 (cache r2) a3 = Inr r3 \<and> p < 2 \<and>
      valid (cacheLineArray (cacheSetArray (cache r2)) ! p) \<noteq> 0 \<and>
      tag (cacheLineArray (cacheSetArray (cache r2)) ! p) = ucast (snd (address_decomposer a1)) \<and>
      time (cacheLineArray (cacheSetArray (cache r2)) ! p) = 1 \<and>
      hit_line (cacheSetArray (cache r2)) (snd (address_decomposer a3)) 2 = None \<and>
      evicted_line (cacheSetArray (cache r2)) 2 = Some p \<and>
      reads r3 = [a3 - fst (address_decomposer a3)] \<and>
      tag (cacheLineArray (cacheSetArray (cache r3)) ! p) = ucast (snd (address_decomposer a3))) \<and>
    (\<forall>n st tg. recency_perm n st \<and> n \<noteq> 0 \<longrightarrow>
      (\<exists>e st'. findEvict st tg n = Inr (e, st') \<and> evicted_line st n = Some e \<and> e < unat n \<and>
         time (cacheLineArray st ! e) = n - 1 \<and>
         (\<forall>i<unat n. time (cacheLineArray st ! i) = n - 1 \<longrightarrow> i = e)))"
proof -
  let ?T1 = "drop_bit 6 a1" and ?T2 = "drop_bit 6 a2" and ?T3 = "drop_bit 6 a3"
  note ad = address_decomposer_eq fst_conv snd_conv
  have w: "take_bit 6 a1 + 8 \<le> 64" "take_bit 6 a2 + 8 \<le> 64" "take_bit 6 a3 + 8 \<le> 64"
    using assms(3-5) unfolding ad .
  have d12: "(ucast ?T1 :: 32 word) \<noteq> ucast ?T2" and d13: "(ucast ?T1 :: 32 word) \<noteq> ucast ?T3"
    and d23: "(ucast ?T2 :: 32 word) \<noteq> ucast ?T3"
    using assms(6-8) unfolding ad .
  have n: "(2 :: 32 word) \<noteq> 0" and u: "unat (2 :: 32 word) = 2" by simp_all
  \<comment> \<open>the first request\<close>
  obtain r1 p1 where r1: "cache_get m1 2 c a1 = Inr r1" "p1 < 2"
    "initialized (cache r1) = initialized c" "recency_perm 2 (cacheSetArray (cache r1))"
    "valid (cacheLineArray (cacheSetArray (cache r1)) ! p1) \<noteq> 0"
    "tag (cacheLineArray (cacheSetArray (cache r1)) ! p1) = ucast ?T1"
    "time (cacheLineArray (cacheSetArray (cache r1)) ! p1) = 0"
    using get_resolves [OF assms(1,2) n w(1), of m1] unfolding u by blast
  let ?L1 = "cacheLineArray (cacheSetArray (cache r1))"
  have i1: "initialized (cache r1) \<noteq> 0" using r1(3) assms(1) by simp
  \<comment> \<open>the second request\<close>
  obtain r2 p2 where r2: "cache_get m2 2 (cache r1) a2 = Inr r2" "p2 < 2"
    "initialized (cache r2) = initialized (cache r1)" "recency_perm 2 (cacheSetArray (cache r2))"
    and how2: "hit_line (cacheSetArray (cache r1)) ?T2 2 = Some p2 \<or>
       hit_line (cacheSetArray (cache r1)) ?T2 2 = None \<and>
         evicted_line (cacheSetArray (cache r1)) 2 = Some p2"
    and l2: "valid (cacheLineArray (cacheSetArray (cache r2)) ! p2) \<noteq> 0"
    "tag (cacheLineArray (cacheSetArray (cache r2)) ! p2) = ucast ?T2"
    "time (cacheLineArray (cacheSetArray (cache r2)) ! p2) = 0"
    and frame2: "\<And>j. j < 2 \<Longrightarrow> j \<noteq> p2 \<Longrightarrow>
         valid (cacheLineArray (cacheSetArray (cache r2)) ! j) = valid (?L1 ! j) \<and>
         tag (cacheLineArray (cacheSetArray (cache r2)) ! j) = tag (?L1 ! j)"
    using get_resolves [OF i1 r1(4) n w(2), of m2] unfolding u by blast
  let ?L2 = "cacheLineArray (cacheSetArray (cache r2))"
  have i2: "initialized (cache r2) \<noteq> 0" using r2(3) i1 by simp
  have ne: "p1 \<noteq> p2"
  proof
    assume eq: "p1 = p2"
    from how2 show False
    proof
      assume "hit_line (cacheSetArray (cache r1)) ?T2 2 = Some p2"
      then have "ucast (tag (?L1 ! p2)) = ?T2" using hit_line_Some by blast
      then show False using stored_tag_differs [OF d12 r1(6)] eq by simp
    next
      assume "hit_line (cacheSetArray (cache r1)) ?T2 2 = None \<and>
              evicted_line (cacheSetArray (cache r1)) 2 = Some p2"
      then have "time (?L1 ! p2) = 2 - 1"
        using evicted_line_Some [OF r1(4)] by blast
      then show False using r1(7) eq by simp
    qed
  qed
  have v1: "valid (?L2 ! p1) \<noteq> 0" and t1: "tag (?L2 ! p1) = ucast ?T1"
    using frame2 [OF r1(2) ne] r1(5,6) by simp_all
  have time1: "time (?L2 ! p1) = 1"
  proof -
    have "time (?L2 ! p1) \<noteq> time (?L2 ! p2)"
      using perm_time_inj [OF r2(4), of p1 p2] r1(2) r2(2) ne unfolding u by blast
    then have "unat (time (?L2 ! p1)) \<noteq> 0" using l2(3) by (simp add: word_unat_eq_iff)
    moreover have "unat (time (?L2 ! p1)) < 2"
      using perm_time_less [OF r2(4), of p1] r1(2) unfolding u by simp
    ultimately have "unat (time (?L2 ! p1)) = 1" by simp
    then show ?thesis by (simp add: word_unat_eq_iff)
  qed
  \<comment> \<open>the third request finds neither line\<close>
  have miss3: "hit_line (cacheSetArray (cache r2)) ?T3 2 = None"
    unfolding hit_line_None u
  proof (intro allI impI)
    fix i :: nat assume "i < 2"
    then have "i = p1 \<or> i = p2" using two_lines [OF r1(2) r2(2) ne] by simp
    then have "ucast (tag (?L2 ! i)) \<noteq> ?T3"
      using stored_tag_differs [OF d13 t1] stored_tag_differs [OF d23 l2(2)] by auto
    then show "\<not> (valid (?L2 ! i) \<noteq> 0 \<and> ucast (tag (?L2 ! i)) = ?T3)" by simp
  qed
  obtain e where e: "evicted_line (cacheSetArray (cache r2)) 2 = Some e"
    using perm_evicted [OF r2(4) n] by blast
  have "time (?L2 ! p1) = 2 - 1" using time1 by simp
  then have ep: "e = p1"
    using evicted_line_Some [OF r2(4) e] r1(2) unfolding u by simp
  obtain r3 p3 where r3: "cache_get m3 2 (cache r2) a3 = Inr r3"
    and how3: "hit_line (cacheSetArray (cache r2)) ?T3 2 = Some p3 \<and> reads r3 = [] \<or>
       hit_line (cacheSetArray (cache r2)) ?T3 2 = None \<and>
         evicted_line (cacheSetArray (cache r2)) 2 = Some p3 \<and> reads r3 = [a3 - take_bit 6 a3]"
    and l3: "tag (cacheLineArray (cacheSetArray (cache r3)) ! p3) = ucast ?T3"
    using get_resolves [OF i2 r2(4) n w(3), of m3] by blast
  from how3 miss3 e ep have p3: "p3 = p1" and rd3: "reads r3 = [a3 - take_bit 6 a3]"
    by simp_all
  have scenario: "\<exists>r1 r2 r3 p.
      cache_get m1 2 c a1 = Inr r1 \<and> cache_get m2 2 (cache r1) a2 = Inr r2 \<and>
      cache_get m3 2 (cache r2) a3 = Inr r3 \<and> p < 2 \<and>
      valid (cacheLineArray (cacheSetArray (cache r2)) ! p) \<noteq> 0 \<and>
      tag (cacheLineArray (cacheSetArray (cache r2)) ! p) = ucast ?T1 \<and>
      time (cacheLineArray (cacheSetArray (cache r2)) ! p) = 1 \<and>
      hit_line (cacheSetArray (cache r2)) ?T3 2 = None \<and>
      evicted_line (cacheSetArray (cache r2)) 2 = Some p \<and>
      reads r3 = [a3 - take_bit 6 a3] \<and>
      tag (cacheLineArray (cacheSetArray (cache r3)) ! p) = ucast ?T3"
    apply (rule exI [of _ r1], rule exI [of _ r2], rule exI [of _ r3], rule exI [of _ p1])
    using r1(1,2) r2(1) r3 v1 t1 time1 miss3 e ep rd3 l3 p3 by simp
  have general: "\<exists>e st'. findEvict st tg n = Inr (e, st') \<and> evicted_line st n = Some e \<and>
         e < unat n \<and> time (cacheLineArray st ! e) = n - 1 \<and>
         (\<forall>i<unat n. time (cacheLineArray st ! i) = n - 1 \<longrightarrow> i = e)"
    if pm: "recency_perm n st" and nz: "n \<noteq> 0" for n st tg
  proof -
    obtain e where e: "evicted_line st n = Some e"
      using perm_evicted [OF pm nz] by blast
    show ?thesis
      using findEvict_installed [OF pm e, of tg] e evicted_line_Some [OF pm e]
      by blast
  qed
  show ?thesis
    unfolding ad using scenario general by blast
qed

lemma lru_evicts_first_of_three_example:
  "initialized (init 2 arena2) \<noteq> 0 \<and> recency_perm 2 (cacheSetArray (init 2 arena2)) \<and>
   fst (address_decomposer 0) + 8 \<le> 64 \<and> fst (address_decomposer 64) + 8 \<le> 64 \<and>
   fst (address_decomposer 128) + 8 \<le> 64 \<and>
   (ucast (snd (address_decomposer 0)) :: 32 word) \<noteq> ucast (snd (address_decomposer 64)) \<and>
   (ucast (snd (address_decomposer 0)) :: 32 word) \<noteq> ucast (snd (address_decomposer 128)) \<and>
   (ucast (snd (address_decomposer 64)) :: 32 word) \<noteq> ucast (snd (address_decomposer 128)) \<and>
   (\<exists>r1 r2 r3. cache_get backing 2 (init 2 arena2) 0 = Inr r1 \<and>
      cache_get backing 2 (cache r1) 64 = Inr r2 \<and> cache_get backing 2 (cache r2) 128 = Inr r3 \<and>
      map tag (cacheLineArray (cacheSetArray (cache r2))) = [1, 0] \<and>
      evicted_line (cacheSetArray (cache r2)) 2 = Some 1 \<and>
      map tag (cacheLineArray (cacheSetArray (cache r3))) = [1, 2])"
proof -
  let ?c = "init 2 arena2"
  have 1: "initialized ?c \<noteq> 0" by code_simp
  have 2: "recency_perm 2 (cacheSetArray ?c)" unfolding recency_perm_def by code_simp
  have 3: "fst (address_decomposer 0) + 8 \<le> 64" by code_simp
  have 4: "fst (address_decomposer 64) + 8 \<le> 64" by code_simp
  have 5: "fst (address_decomposer 128) + 8 \<le> 64" by code_simp
  have 6: "(ucast (snd (address_decomposer 0)) :: 32 word) \<noteq> ucast (snd (address_decomposer 64))"
    by code_simp
  have 7: "(ucast (snd (address_decomposer 0)) :: 32 word) \<noteq> ucast (snd (address_decomposer 128))"
    by code_simp
  have 8: "(ucast (snd (address_decomposer 64)) :: 32 word) \<noteq> ucast (snd (address_decomposer 128))"
    by code_simp
  let ?r1 = "projr (cache_get backing 2 ?c 0)"
  let ?r2 = "projr (cache_get backing 2 (cache ?r1) 64)"
  let ?r3 = "projr (cache_get backing 2 (cache ?r2) 128)"
  have e1: "cache_get backing 2 ?c 0 = Inr ?r1" by code_simp
  have e2: "cache_get backing 2 (cache ?r1) 64 = Inr ?r2" by code_simp
  have e3: "cache_get backing 2 (cache ?r2) 128 = Inr ?r3" by code_simp
  have f: "map tag (cacheLineArray (cacheSetArray (cache ?r2))) = [1, 0] \<and>
      evicted_line (cacheSetArray (cache ?r2)) 2 = Some 1 \<and>
      map tag (cacheLineArray (cacheSetArray (cache ?r3))) = [1, 2]"
    by code_simp
  from lru_evicts_first_of_three [where c = ?c and ?a1.0 = 0 and ?a2.0 = 64 and ?a3.0 = 128
      and ?m1.0 = backing and ?m2.0 = backing and ?m3.0 = backing, OF 1 2 3 4 5 6 7 8,
      THEN conjunct1]
  obtain r1 r2 r3 where r: "cache_get backing 2 ?c 0 = Inr r1"
    "cache_get backing 2 (cache r1) 64 = Inr r2" "cache_get backing 2 (cache r2) 128 = Inr r3"
    by blast
  have q1: "r1 = ?r1" using r(1) e1 by simp
  have q2: "r2 = ?r2" using r(2) e2 unfolding q1 by simp
  have q3: "r3 = ?r3" using r(3) e3 unfolding q2 by simp
  have f': "map tag (cacheLineArray (cacheSetArray (cache r2))) = [1, 0] \<and>
      evicted_line (cacheSetArray (cache r2)) 2 = Some 1 \<and>
      map tag (cacheLineArray (cacheSetArray (cache r3))) = [1, 2]"
    unfolding q3 q2 using f .
  have ex: "\<exists>r1 r2 r3. cache_get backing 2 (init 2 arena2) 0 = Inr r1 \<and>
      cache_get backing 2 (cache r1) 64 = Inr r2 \<and> cache_get backing 2 (cache r2) 128 = Inr r3 \<and>
      map tag (cacheLineArray (cacheSetArray (cache r2))) = [1, 0] \<and>
      evicted_line (cacheSetArray (cache r2)) 2 = Some 1 \<and>
      map tag (cacheLineArray (cacheSetArray (cache r3))) = [1, 2]"
    by (rule exI [of _ r1], rule exI [of _ r2], rule exI [of _ r3],
        rule conjI [OF r(1) conjI [OF r(2) conjI [OF r(3) f']]])
  show ?thesis
    by (rule conjI [OF 1 conjI [OF 2 conjI [OF 3 conjI [OF 4 conjI [OF 5 conjI [OF 6
          conjI [OF 7 conjI [OF 8 ex]]]]]]]])
qed

text \<open>
  C4. On two lines, after requests for three distinct tags \<open>T1\<close>, \<open>T2\<close>, \<open>T3\<close> the third
  request should evict the line that holds \<open>T1\<close>. With the distinct tags \<open>2^32\<close>, 1 and 0
  (addresses \<open>2^38\<close>, 64 and 0) on two fresh lines: line 1 is evicted for the first
  request and, the tag being narrowed to 32 bits by \<open>findEvict\<close> (line 123), stores the
  tag 0; after the second request it is the least recently used line, the one with time
  1. The third request, for tag 0, finds this stored tag and hits line 1: no line is
  evicted, the tags stay as they were, and \<open>cache_get\<close> returns 1 with a value made of
  the bytes of the block of \<open>2^38\<close>, not of the block of address 0.
\<close>

theorem third_request_hits_narrowed_tag:
  "snd (address_decomposer wide_address) = 2 ^ 32 \<and> snd (address_decomposer 64) = 1 \<and>
   snd (address_decomposer 0) = 0 \<and>
   evicted_line (cacheSetArray (init 2 arena2)) 2 = Some 1 \<and>
   map tag (cacheLineArray (cacheSetArray
     (projr (cache_after backing 2 (init 2 arena2) [wide_address, 64])))) = [1, 0] \<and>
   map time (cacheLineArray (cacheSetArray
     (projr (cache_after backing 2 (init 2 arena2) [wide_address, 64])))) = [0, 1] \<and>
   evicted_line (cacheSetArray
     (projr (cache_after backing 2 (init 2 arena2) [wide_address, 64]))) 2 = Some 1 \<and>
   hit_line (cacheSetArray
     (projr (cache_after backing 2 (init 2 arena2) [wide_address, 64])))
     (snd (address_decomposer 0)) 2 = Some 1 \<and>
   map_sum id ret
     (cache_get backing 2 (projr (cache_after backing 2 (init 2 arena2) [wide_address, 64])) 0) =
     Inr 1 \<and>
   map_sum id reads
     (cache_get backing 2 (projr (cache_after backing 2 (init 2 arena2) [wide_address, 64])) 0) =
     Inr [] \<and>
   map_sum id value_out
     (cache_get backing 2 (projr (cache_after backing 2 (init 2 arena2) [wide_address, 64])) 0) =
     Inr (Some (reverse_endian (take 8 (snd (backing wide_address [] 64))))) \<and>
   reverse_endian (take 8 (snd (backing wide_address [] 64))) = 0x4746454443424140 \<and>
   reverse_endian (take 8 (snd (backing 0 [] 64))) = 0x0706050403020100 \<and>
   map tag (cacheLineArray (cacheSetArray
     (projr (cache_after backing 2 (init 2 arena2) [wide_address, 64, 0])))) = [1, 0] \<and>
   map time (cacheLineArray (cacheSetArray
     (projr (cache_after backing 2 (init 2 arena2) [wide_address, 64, 0])))) = [1, 0]"
  by code_simp

section \<open>The return value of a crossing request\<close>

text \<open>
  C1. The request for address 60 on two fresh lines needs the bytes 60 to 63 of the
  block at 0 and the bytes 0 to 3 of the block at 64. Both reads of the backing memory
  succeed and the value stored is the decode of these eight bytes, yet \<open>cache_get\<close>
  returns 0; the same request again finds both blocks in the cache, stores the same
  value and returns 0 again. (By \<open>cache_get_returns\<close> every crossing request returns 0.)
\<close>

theorem crossing_request_returns_zero:
  "\<not> fst (address_decomposer 60) + 8 \<le> 64 \<and>
   map_sum id ret (cache_get backing 2 arena2 60) = Inr 0 \<and>
   map_sum id reads (cache_get backing 2 arena2 60) = Inr [0, 64] \<and>
   map_sum id value_out (cache_get backing 2 arena2 60) =
     Inr (Some (reverse_endian (drop 60 (snd (backing 0 [] 64)) @ take 4 (snd (backing 64 [] 64))))) \<and>
   map_sum id ret (cache_get backing 2 (cache (projr (cache_get backing 2 arena2 60))) 60) = Inr 0 \<and>
   map_sum id reads (cache_get backing 2 (cache (projr (cache_get backing 2 arena2 60))) 60) = Inr [] \<and>
   map_sum id value_out (cache_get backing 2 (cache (projr (cache_get backing 2 arena2 60))) 60) =
     Inr (Some (reverse_endian (drop 60 (snd (backing 0 [] 64)) @ take 4 (snd (backing 64 [] 64)))))"
  by code_simp

end
